theory Spec2Isabelle
  imports Main "HOL-Library.Word" "HOL-Library.Sublist"
begin

unbundle bit_operations_syntax

section \<open>Data model (kmap_core.h)\<close>

text \<open>
  The bit vectors of the C code (\<open>uint64_t\<close>) are 64-bit words and the literal fields
  (\<open>uint8_t\<close>, combined with \<open>&\<close> and \<open>~\<close>) are 8-bit words. The \<open>uint8_t\<close> fields that
  are only counted, compared and used as shift amounts (\<open>num_vars\<close>, \<open>minterm_count\<close>,
  \<open>size\<close>, the loop counters over cells) are natural numbers: with \<open>num_vars \<le> 6\<close> a cell
  counter never exceeds 64, so it never wraps in \<open>uint8_t\<close>. The C field \<open>size\<close> of an
  implicant is called \<open>isize\<close> here. The array \<open>implicants[MAX_GROUPS]\<close> together with
  \<open>implicant_count\<close> is the list of its first \<open>implicant_count\<close> entries.
\<close>

type_synonym u64 = "64 word"
type_synonym u8 = "8 word"

definition MAX_VARIABLES :: nat where
  "MAX_VARIABLES = 6"

definition MAX_GROUPS :: nat where
  "MAX_GROUPS = 32"

record truth_table =
  minterms :: u64
  dont_cares :: u64
  num_vars :: nat
  minterm_count :: nat

record implicant =
  covered_minterms :: u64
  literal_mask :: u8
  literal_values :: u8
  isize :: nat

record solution =
  implicants :: "implicant list"
  literal_count :: nat
  term_count :: nat

definition implicant_count :: "solution \<Rightarrow> nat" where
  "implicant_count s = length (implicants s)"

text \<open>\<open>popcount\<close> is \<open>__builtin_popcountll\<close>; \<open>ctz\<close> is \<open>__builtin_ctzll\<close>, which C leaves
  undefined at 0 (the model gives 64 there; the code calls it on a nonzero word only).\<close>

definition popcount :: "u64 \<Rightarrow> nat" where
  "popcount v = length (filter (bit v) [0..<64])"

definition ctz :: "u64 \<Rightarrow> nat" where
  "ctz v = length (takeWhile (\<lambda>i. \<not> bit v i) [0..<64])"

text \<open>
  A C shift of a 64-bit value by 64 or more has no defined result. The model makes this
  an outcome of its own instead of choosing a value.
\<close>

datatype 'a c_result = Undefined_Shift | Returns 'a

definition shl64 :: "u64 \<Rightarrow> nat \<Rightarrow> u64 c_result" where
  "shl64 x n = (if n < 64 then Returns (push_bit n x) else Undefined_Shift)"

section \<open>Adjacency and validation\<close>

definition are_adjacent :: "nat \<Rightarrow> nat \<Rightarrow> nat \<Rightarrow> bool" where
  "are_adjacent cell1 cell2 nv =
     (if cell1 \<ge> 2 ^ nv \<or> cell2 \<ge> 2 ^ nv then False
      else let diff = (of_nat cell1 XOR of_nat cell2 :: u8)
           in popcount (ucast diff) = 1)"

text \<open>\<open>validate_truth_table\<close>: a null pointer is \<open>None\<close>. The mask is
  \<open>(1ULL << (1 << num_vars)) - 1\<close>.\<close>

definition validate_truth_table :: "truth_table option \<Rightarrow> bool c_result" where
  "validate_truth_table t =
     (case t of
        None \<Rightarrow> Returns False
      | Some tt \<Rightarrow>
          if num_vars tt < 2 \<or> num_vars tt > MAX_VARIABLES then Returns False
          else (case shl64 1 (2 ^ num_vars tt) of
                  Undefined_Shift \<Rightarrow> Undefined_Shift
                | Returns s \<Rightarrow>
                    let max_mask = s - 1 in
                    if minterms tt AND dont_cares tt \<noteq> 0 then Returns False
                    else if (minterms tt OR dont_cares tt) AND NOT max_mask \<noteq> 0
                      then Returns False
                    else if minterm_count tt \<noteq> popcount (minterms tt) then Returns False
                    else Returns True))"

text \<open>The loop of \<open>validate_solution\<close> that ORs the covered minterms together.\<close>

definition covered_union :: "implicant list \<Rightarrow> u64" where
  "covered_union imps = fold (\<lambda>imp covered. covered OR covered_minterms imp) imps 0"

definition validate_solution :: "truth_table option \<Rightarrow> solution option \<Rightarrow> bool c_result" where
  "validate_solution t s =
     (case (t, s) of
        (Some tt, Some sol) \<Rightarrow>
          (case validate_truth_table (Some tt) of
             Undefined_Shift \<Rightarrow> Undefined_Shift
           | Returns False \<Rightarrow> Returns False
           | Returns True \<Rightarrow> Returns (covered_union (implicants sol) = minterms tt))
      | _ \<Rightarrow> Returns False)"

text \<open>The invariants of a truth table as section 3 of the specification words them:
  2 to 6 variables, minterms and don't-cares disjoint, both inside the domain of
  \<open>2 ^ num_vars\<close> cells, and the declared count equal to the population count.\<close>

definition tt_invariants :: "truth_table \<Rightarrow> bool" where
  "tt_invariants tt \<longleftrightarrow>
     2 \<le> num_vars tt \<and> num_vars tt \<le> 6 \<and>
     minterms tt AND dont_cares tt = 0 \<and>
     (minterms tt OR dont_cares tt) AND NOT (mask (2 ^ num_vars tt)) = 0 \<and>
     minterm_count tt = popcount (minterms tt)"

section \<open>The grouping engine (find_groups_with_dont_cares)\<close>

text \<open>The state of the engine: \<open>remaining_minterms\<close>, \<open>available_for_grouping\<close> and the
  groups emitted so far (\<open>groups[0 .. *group_count - 1]\<close>). \<open>total_cells\<close>, which is
  \<open>1ULL << num_vars\<close>, is written \<open>2 ^ nv\<close>; a test \<open>x & (1ULL << cell)\<close> is written
  as in C, with \<open>push_bit cell 1\<close> for the shift (the cells are below 64). The engine
  returns the list of groups; the C function stores it through its two out-parameters
  and returns its length.\<close>

type_synonym gstate = "u64 \<times> u64 \<times> implicant list"

definition pair_implicant :: "u64 \<Rightarrow> nat \<Rightarrow> nat \<Rightarrow> nat \<Rightarrow> implicant" where
  "pair_implicant mt nv cell1 cell2 =
     (let diff = (of_nat cell1 XOR of_nat cell2 :: u8);
          group_mask = (push_bit cell1 1 OR push_bit cell2 1 :: u64);
          cm = group_mask AND mt;
          lm = (2 ^ nv - 1) AND NOT diff
      in \<lparr>covered_minterms = cm, literal_mask = lm,
          literal_values = of_nat cell1 AND lm, isize = popcount cm\<rparr>)"

text \<open>The inner loop of the pair pass over \<open>cell2\<close>; it ends at the first emission
  (\<open>break\<close>) or when the cells are exhausted. The C code fills the slot
  \<open>groups[*group_count]\<close> before it tests \<open>covered_minterms\<close>; the slot belongs to the
  list only once \<open>*group_count\<close> is incremented.\<close>

function pair_scan :: "u64 \<Rightarrow> nat \<Rightarrow> nat \<Rightarrow> nat \<Rightarrow> gstate \<Rightarrow> gstate" where
  "pair_scan mt nv cell1 cell2 (rm, av, gs) =
     (if cell2 < 2 ^ nv then
        if av AND push_bit cell2 1 = 0 then pair_scan mt nv cell1 (cell2 + 1) (rm, av, gs)
        else if are_adjacent cell1 cell2 nv then
          let g = pair_implicant mt nv cell1 cell2;
              group_mask = (push_bit cell1 1 OR push_bit cell2 1 :: u64)
          in if covered_minterms g \<noteq> 0
             then (rm AND NOT (covered_minterms g), av AND NOT group_mask, gs @ [g])
             else pair_scan mt nv cell1 (cell2 + 1) (rm, av, gs)
        else pair_scan mt nv cell1 (cell2 + 1) (rm, av, gs)
      else (rm, av, gs))"
  by pat_completeness auto
termination
  by (relation "measure (\<lambda>(mt, nv, cell1, cell2, st). 2 ^ nv - cell2)") auto

text \<open>The body of the outer loop of the pair pass for one \<open>cell1\<close>.\<close>

fun pair_cell :: "u64 \<Rightarrow> nat \<Rightarrow> nat \<Rightarrow> gstate \<Rightarrow> gstate" where
  "pair_cell mt nv cell1 (rm, av, gs) =
     (if av AND push_bit cell1 1 = 0 then (rm, av, gs)
      else if rm AND push_bit cell1 1 = 0 then (rm, av, gs)
      else pair_scan mt nv cell1 (cell1 + 1) (rm, av, gs))"

function pair_pass :: "u64 \<Rightarrow> nat \<Rightarrow> nat \<Rightarrow> gstate \<Rightarrow> gstate" where
  "pair_pass mt nv cell1 (rm, av, gs) =
     (if cell1 < 2 ^ nv \<and> length gs < MAX_GROUPS
      then pair_pass mt nv (cell1 + 1) (pair_cell mt nv cell1 (rm, av, gs))
      else (rm, av, gs))"
  by pat_completeness auto
termination
  by (relation "measure (\<lambda>(mt, nv, cell1, st). 2 ^ nv - cell1)") auto

definition is_valid_4cell_group :: "nat \<Rightarrow> nat \<Rightarrow> nat \<Rightarrow> nat \<Rightarrow> nat \<Rightarrow> bool" where
  "is_valid_4cell_group c1 c2 c3 c4 nv =
     (let diff1 = (of_nat c1 XOR of_nat c2 :: u8);
          diff2 = (of_nat c1 XOR of_nat c3 :: u8);
          diff3 = (of_nat c1 XOR of_nat c4 :: u8)
      in diff1 \<noteq> 0 \<and> diff2 \<noteq> 0 \<and> diff3 \<noteq> 0 \<and>
         (diff1 AND diff2 = 0 \<or> diff1 AND diff3 = 0 \<or> diff2 AND diff3 = 0))"

definition quad_implicant :: "u64 \<Rightarrow> nat \<Rightarrow> nat \<Rightarrow> nat \<Rightarrow> nat \<Rightarrow> nat \<Rightarrow> implicant" where
  "quad_implicant mt nv c1 c2 c3 c4 =
     (let group_mask = (push_bit c1 1 OR push_bit c2 1 OR push_bit c3 1 OR push_bit c4 1 :: u64);
          diff_bits = (of_nat c1 XOR of_nat c2 XOR of_nat c3 XOR of_nat c4 :: u8);
          cm = group_mask AND mt;
          lm = (2 ^ nv - 1) AND NOT diff_bits
      in \<lparr>covered_minterms = cm, literal_mask = lm,
          literal_values = of_nat c1 AND lm, isize = popcount cm\<rparr>)"

text \<open>The three inner loops of the quad pass. Each returns \<open>Some\<close> of the new state when a
  group was emitted (the \<open>goto next_cell1\<close>) and \<open>None\<close> when its cells are exhausted.\<close>

function quad_scan4 :: "u64 \<Rightarrow> nat \<Rightarrow> nat \<Rightarrow> nat \<Rightarrow> nat \<Rightarrow> nat \<Rightarrow> gstate \<Rightarrow> gstate option" where
  "quad_scan4 mt nv c1 c2 c3 c4 (rm, av, gs) =
     (if c4 < 2 ^ nv then
        if av AND push_bit c4 1 = 0 then quad_scan4 mt nv c1 c2 c3 (c4 + 1) (rm, av, gs)
        else
          let group_mask = (push_bit c1 1 OR push_bit c2 1 OR push_bit c3 1 OR push_bit c4 1 :: u64);
              diff_bits = (of_nat c1 XOR of_nat c2 XOR of_nat c3 XOR of_nat c4 :: u8);
              g = quad_implicant mt nv c1 c2 c3 c4
          in if popcount (ucast diff_bits) = 2 \<and> is_valid_4cell_group c1 c2 c3 c4 nv
             then if covered_minterms g \<noteq> 0
               then Some (rm AND NOT (covered_minterms g), av AND NOT group_mask, gs @ [g])
               else quad_scan4 mt nv c1 c2 c3 (c4 + 1) (rm, av, gs)
             else quad_scan4 mt nv c1 c2 c3 (c4 + 1) (rm, av, gs)
      else None)"
  by pat_completeness auto
termination
  by (relation "measure (\<lambda>(mt, nv, c1, c2, c3, c4, st). 2 ^ nv - c4)") auto

function quad_scan3 :: "u64 \<Rightarrow> nat \<Rightarrow> nat \<Rightarrow> nat \<Rightarrow> nat \<Rightarrow> gstate \<Rightarrow> gstate option" where
  "quad_scan3 mt nv c1 c2 c3 (rm, av, gs) =
     (if c3 < 2 ^ nv then
        if \<not> are_adjacent c1 c3 nv \<and> \<not> are_adjacent c2 c3 nv
          then quad_scan3 mt nv c1 c2 (c3 + 1) (rm, av, gs)
        else if av AND push_bit c3 1 = 0 then quad_scan3 mt nv c1 c2 (c3 + 1) (rm, av, gs)
        else (case quad_scan4 mt nv c1 c2 c3 (c3 + 1) (rm, av, gs) of
                Some st \<Rightarrow> Some st
              | None \<Rightarrow> quad_scan3 mt nv c1 c2 (c3 + 1) (rm, av, gs))
      else None)"
  by pat_completeness auto
termination
  by (relation "measure (\<lambda>(mt, nv, c1, c2, c3, st). 2 ^ nv - c3)") auto

function quad_scan2 :: "u64 \<Rightarrow> nat \<Rightarrow> nat \<Rightarrow> nat \<Rightarrow> gstate \<Rightarrow> gstate option" where
  "quad_scan2 mt nv c1 c2 (rm, av, gs) =
     (if c2 < 2 ^ nv then
        if \<not> are_adjacent c1 c2 nv then quad_scan2 mt nv c1 (c2 + 1) (rm, av, gs)
        else if av AND push_bit c2 1 = 0 then quad_scan2 mt nv c1 (c2 + 1) (rm, av, gs)
        else (case quad_scan3 mt nv c1 c2 (c2 + 1) (rm, av, gs) of
                Some st \<Rightarrow> Some st
              | None \<Rightarrow> quad_scan2 mt nv c1 (c2 + 1) (rm, av, gs))
      else None)"
  by pat_completeness auto
termination
  by (relation "measure (\<lambda>(mt, nv, c1, c2, st). 2 ^ nv - c2)") auto

function quad_pass :: "u64 \<Rightarrow> nat \<Rightarrow> nat \<Rightarrow> gstate \<Rightarrow> gstate" where
  "quad_pass mt nv cell1 (rm, av, gs) =
     (if cell1 < 2 ^ nv \<and> length gs < MAX_GROUPS \<and> rm \<noteq> 0 then
        if rm AND push_bit cell1 1 = 0 then quad_pass mt nv (cell1 + 1) (rm, av, gs)
        else (case quad_scan2 mt nv cell1 (cell1 + 1) (rm, av, gs) of
                Some st \<Rightarrow> quad_pass mt nv (cell1 + 1) st
              | None \<Rightarrow> quad_pass mt nv (cell1 + 1) (rm, av, gs))
      else (rm, av, gs))"
  by pat_completeness auto
termination
  by (relation "measure (\<lambda>(mt, nv, cell1, st). 2 ^ nv - cell1)") auto

definition single_implicant :: "nat \<Rightarrow> nat \<Rightarrow> implicant" where
  "single_implicant nv cell =
     \<lparr>covered_minterms = push_bit cell 1, literal_mask = 2 ^ nv - 1,
      literal_values = of_nat cell, isize = 1\<rparr>"

function single_pass :: "nat \<Rightarrow> nat \<Rightarrow> gstate \<Rightarrow> gstate" where
  "single_pass nv cell (rm, av, gs) =
     (if cell < 2 ^ nv \<and> length gs < MAX_GROUPS then
        if rm AND push_bit cell 1 \<noteq> 0
          then single_pass nv (cell + 1) (rm, av, gs @ [single_implicant nv cell])
          else single_pass nv (cell + 1) (rm, av, gs)
      else (rm, av, gs))"
  by pat_completeness auto
termination
  by (relation "measure (\<lambda>(nv, cell, st). 2 ^ nv - cell)") auto

definition find_groups_with_dont_cares :: "u64 \<Rightarrow> u64 \<Rightarrow> nat \<Rightarrow> implicant list" where
  "find_groups_with_dont_cares mt dc nv =
     (let st1 = pair_pass mt nv 0 (mt, mt OR dc, []);
          st2 = quad_pass mt nv 0 st1;
          st3 = single_pass nv 0 st2
      in snd (snd st3))"

section \<open>The redundancy reducer (remove_redundant_implicants)\<close>

text \<open>The inner loop over \<open>j\<close>: \<open>True\<close> when it reaches the \<open>break\<close>, that is when some
  \<open>j\<close> makes implicant \<open>i\<close> redundant in the array as it is now.\<close>

function redundant_scan :: "implicant list \<Rightarrow> nat \<Rightarrow> nat \<Rightarrow> bool" where
  "redundant_scan imps i j =
     (if j < length imps then
        if i = j \<or> isize (imps ! j) = 0 then redundant_scan imps i (j + 1)
        else
          let i_minterms = covered_minterms (imps ! i);
              j_minterms = covered_minterms (imps ! j)
          in if i_minterms AND j_minterms = i_minterms \<and> isize (imps ! j) > isize (imps ! i)
             then True
             else redundant_scan imps i (j + 1)
      else False)"
  by pat_completeness auto
termination
  by (relation "measure (\<lambda>(imps, i, j). length imps - j)") auto

text \<open>The outer loop over \<open>i\<close>: marks in place, so later iterations see the marks.\<close>

function mark_redundant :: "implicant list \<Rightarrow> nat \<Rightarrow> implicant list" where
  "mark_redundant imps i =
     (if i < length imps then
        if isize (imps ! i) = 0 then mark_redundant imps (i + 1)
        else if redundant_scan imps i 0
          then mark_redundant (imps[i := (imps ! i)\<lparr>isize := 0\<rparr>]) (i + 1)
          else mark_redundant imps (i + 1)
      else imps)"
  by pat_completeness auto
termination
  by (relation "measure (\<lambda>(imps, i). length imps - i)") auto

text \<open>The compaction loop; it returns the array and the final \<open>write_pos\<close>.\<close>

function compact :: "implicant list \<Rightarrow> nat \<Rightarrow> nat \<Rightarrow> implicant list \<times> nat" where
  "compact imps write_pos read_pos =
     (if read_pos < length imps then
        if isize (imps ! read_pos) > 0
          then compact (if write_pos \<noteq> read_pos then imps[write_pos := imps ! read_pos] else imps)
                 (write_pos + 1) (read_pos + 1)
          else compact imps write_pos (read_pos + 1)
      else (imps, write_pos))"
  by pat_completeness auto
termination
  by (relation "measure (\<lambda>(imps, write_pos, read_pos). length imps - read_pos)") auto

definition remove_redundant_implicants :: "implicant list \<Rightarrow> implicant list" where
  "remove_redundant_implicants imps =
     (let (arr, write_pos) = compact (mark_redundant imps 0) 0 0
      in take write_pos arr)"

text \<open>What the reducer's test reads in an array: some other entry \<open>j\<close> that is not removed
  contains the cover of entry \<open>i\<close> and has a larger \<open>size\<close> field.\<close>

definition dominated :: "implicant list \<Rightarrow> nat \<Rightarrow> bool" where
  "dominated imps i \<longleftrightarrow>
     (\<exists>j<length imps. j \<noteq> i \<and> isize (imps ! j) \<noteq> 0 \<and>
        covered_minterms (imps ! i) AND covered_minterms (imps ! j) = covered_minterms (imps ! i) \<and>
        isize (imps ! j) > isize (imps ! i))"

section \<open>find_prime_implicants\<close>

text \<open>The pointer arguments are options (\<open>None\<close> is the null pointer). The result is the
  returned code with the contents of \<open>*solution\<close> after the call. \<open>literal_count\<close> is a
  \<open>uint8_t\<close> that the loop adds to, so the sum is taken modulo 256.\<close>

definition zero_solution :: solution where
  "zero_solution = \<lparr>implicants = [], literal_count = 0, term_count = 0\<rparr>"

definition find_prime_implicants ::
  "truth_table option \<Rightarrow> solution option \<Rightarrow> (int \<times> solution option) c_result" where
  "find_prime_implicants t s =
     (case (t, s) of
        (Some tt, Some sol) \<Rightarrow>
          (case validate_truth_table (Some tt) of
             Undefined_Shift \<Rightarrow> Undefined_Shift
           | Returns False \<Rightarrow> Returns (- 2, Some sol)
           | Returns True \<Rightarrow>
               if minterm_count tt = 0 then Returns (0, Some zero_solution)
               else if minterm_count tt = 1 then
                 let minterm_pos = ctz (minterms tt) in
                 Returns (0, Some (zero_solution
                   \<lparr>implicants :=
                      [\<lparr>covered_minterms = push_bit minterm_pos 1,
                        literal_mask = 2 ^ num_vars tt - 1,
                        literal_values = of_nat minterm_pos,
                        isize = 1\<rparr>]\<rparr>))
               else
                 let gs = remove_redundant_implicants
                            (find_groups_with_dont_cares (minterms tt) (dont_cares tt) (num_vars tt))
                 in Returns (0, Some
                      \<lparr>implicants = gs,
                       literal_count =
                         fold (\<lambda>imp n. (n + popcount (ucast (literal_mask imp))) mod 256) gs 0,
                       term_count = length gs\<rparr>))
      | _ \<Rightarrow> Returns (- 1, s))"

section \<open>generate_sop_expression\<close>

text \<open>The output buffer is the string it holds up to the terminating NUL. \<open>Inl out\<close> is
  the \<open>return -3\<close> with the buffer as it is at that moment.\<close>

definition var_names :: string where
  "var_names = ''ABCDEFGH''"

function gen_literals ::
  "implicant \<Rightarrow> nat \<Rightarrow> int \<Rightarrow> nat \<Rightarrow> bool \<Rightarrow> string \<Rightarrow> string + (bool \<times> string)" where
  "gen_literals imp nv output_len var first_literal out =
     (if var < nv then
        if literal_mask imp AND push_bit var 1 \<noteq> 0 then
          if \<not> first_literal \<and> int (length out) + 1 \<ge> output_len then Inl out
          else
            let out1 = (if \<not> first_literal then out @ ''&'' else out) in
            if literal_values imp AND push_bit var 1 = 0 \<and> int (length out1) + 2 \<ge> output_len
              then Inl out1
            else
              let out2 = (if literal_values imp AND push_bit var 1 = 0 then out1 @ ''~'' else out1) in
              if int (length out2) + 2 \<ge> output_len then Inl out2
              else gen_literals imp nv output_len (var + 1) False (out2 @ [var_names ! var])
        else gen_literals imp nv output_len (var + 1) first_literal out
      else Inr (first_literal, out))"
  by pat_completeness auto
termination
  by (relation "measure (\<lambda>(imp, nv, output_len, var, first_literal, out). nv - var)") auto

function gen_terms :: "implicant list \<Rightarrow> nat \<Rightarrow> int \<Rightarrow> nat \<Rightarrow> string \<Rightarrow> string + string" where
  "gen_terms imps nv output_len i out =
     (if i < length imps then
        if i > 0 \<and> int (length out) + 3 \<ge> output_len then Inl out
        else
          let out1 = (if i > 0 then out @ '' + '' else out) in
          (case gen_literals (imps ! i) nv output_len 0 True out1 of
             Inl e \<Rightarrow> Inl e
           | Inr (first_literal, out2) \<Rightarrow>
               if first_literal then
                 if int (length out2) + 2 \<ge> output_len then Inl out2
                 else gen_terms imps nv output_len (i + 1) (out2 @ ''1'')
               else gen_terms imps nv output_len (i + 1) out2)
      else Inr out)"
  by pat_completeness auto
termination
  by (relation "measure (\<lambda>(imps, nv, output_len, i, out). length imps - i)") auto

text \<open>\<open>strncpy (output, s, output_len - 1)\<close> followed by \<open>output[output_len - 1] = 0\<close>.\<close>

definition strncpy_terminated :: "string \<Rightarrow> int \<Rightarrow> string" where
  "strncpy_terminated s output_len = take (nat (output_len - 1)) s"

definition generate_sop_expression ::
  "solution option \<Rightarrow> nat \<Rightarrow> string option \<Rightarrow> int \<Rightarrow> int \<times> string option" where
  "generate_sop_expression s nv output output_len =
     (case (s, output) of
        (Some sol, Some buf) \<Rightarrow>
          if output_len \<le> 0 then (- 1, Some buf)
          else if nv > 8 then (- 2, Some buf)
          else if implicant_count sol = 0 then (0, Some (strncpy_terminated ''0'' output_len))
          else (case gen_terms (implicants sol) nv output_len 0 [] of
                  Inl out \<Rightarrow> (- 3, Some out)
                | Inr out \<Rightarrow>
                    (0, Some (if length out = 0 then strncpy_terminated ''1'' output_len else out)))
      | _ \<Rightarrow> (- 1, output))"

section \<open>Predicates used in the proofs\<close>

text \<open>A group is sound for a table when it covers at least one cell, covers only
  minterms, every covered cell satisfies its product term, and its term keeps at least
  \<open>num_vars - 1\<close> literals.\<close>

definition group_ok :: "u64 \<Rightarrow> nat \<Rightarrow> implicant \<Rightarrow> bool" where
  "group_ok mt nv g \<longleftrightarrow>
     covered_minterms g \<noteq> 0 \<and> isize g \<noteq> 0 \<and>
     (\<forall>m. bit (covered_minterms g) m \<longrightarrow>
        bit mt m \<and> (of_nat m :: u8) AND literal_mask g = literal_values g) \<and>
     nv - 1 \<le> popcount (ucast (literal_mask g))"

text \<open>The loop invariant of the pair pass before the iteration for cell \<open>k\<close>.\<close>

definition pair_inv :: "u64 \<Rightarrow> nat \<Rightarrow> nat \<Rightarrow> gstate \<Rightarrow> bool" where
  "pair_inv mt nv k st \<longleftrightarrow>
     (case st of (rm, av, gs) \<Rightarrow>
        (\<forall>i. bit rm i \<longrightarrow> bit av i \<and> bit mt i) \<and>
        (\<forall>i. bit av i \<longrightarrow> i < 2 ^ nv) \<and>
        covered_union gs OR rm = mt \<and>
        length gs + length (filter (bit rm) [0..<k]) \<le> (k + 1) div 2 \<and>
        (odd k \<and> bit av k \<longrightarrow> length gs + length (filter (bit rm) [0..<k]) \<le> k div 2) \<and>
        (\<forall>c1 c2. c1 < k \<and> bit rm c1 \<and> c1 < c2 \<and> bit av c2 \<longrightarrow> \<not> are_adjacent c1 c2 nv) \<and>
        (\<forall>g\<in>set gs. group_ok mt nv g))"

text \<open>What holds when the pair pass has ended.\<close>

definition pair_post :: "u64 \<Rightarrow> nat \<Rightarrow> gstate \<Rightarrow> bool" where
  "pair_post mt nv st \<longleftrightarrow>
     (case st of (rm, av, gs) \<Rightarrow>
        (\<forall>i. bit rm i \<longrightarrow> bit mt i \<and> i < 2 ^ nv) \<and>
        covered_union gs OR rm = mt \<and>
        length gs + length (filter (bit rm) [0..<2 ^ nv]) \<le> 2 ^ (nv - 1) \<and>
        (\<forall>c1 c2. bit rm c1 \<and> c1 < c2 \<and> bit av c2 \<longrightarrow> \<not> are_adjacent c1 c2 nv) \<and>
        (\<forall>g\<in>set gs. group_ok mt nv g))"

text \<open>The array of the reducer after its sweep has handled the entries below \<open>k\<close>, with
  every judgment made on the array as it was before the sweep.\<close>

definition marked :: "implicant list \<Rightarrow> nat \<Rightarrow> implicant list" where
  "marked imps k =
     map (\<lambda>i. if i < k \<and> isize (imps ! i) \<noteq> 0 \<and> dominated imps i
              then (imps ! i)\<lparr>isize := 0\<rparr> else imps ! i)
       [0..<length imps]"

section \<open>Tables and solutions used as concrete inputs\<close>

text \<open>The six-variable table with the minterms 0 and 32, which is what \<open>parse_input\<close>
  builds from the minterm list \<open>0,32\<close>.\<close>

definition six_var_table :: truth_table where
  "six_var_table =
     \<lparr>minterms = 4294967297, dont_cares = 0, num_vars = 6, minterm_count = 2\<rparr>"

text \<open>Scenario B as the specification gives it: four variables, minterms 0 and 2,
  don't-cares 1 and 3.\<close>

definition scenario_b :: truth_table where
  "scenario_b = \<lparr>minterms = 5, dont_cares = 10, num_vars = 4, minterm_count = 2\<rparr>"

definition scenario_b_solution :: solution where
  "scenario_b_solution =
     \<lparr>implicants =
        [\<lparr>covered_minterms = 1, literal_mask = 14, literal_values = 0, isize = 1\<rparr>,
         \<lparr>covered_minterms = 4, literal_mask = 14, literal_values = 2, isize = 1\<rparr>],
      literal_count = 6, term_count = 2\<rparr>"

text \<open>The pattern \<open>1X1X\<close> as \<open>parse_input\<close> reads it: four characters are two
  variables, the first character is cell 3; minterms 1 and 3, don't-cares 0 and 2.\<close>

definition pattern_1X1X :: truth_table where
  "pattern_1X1X = \<lparr>minterms = 10, dont_cares = 5, num_vars = 2, minterm_count = 2\<rparr>"

text \<open>Scenario D: two variables, no minterm, every cell a don't-care.\<close>

definition scenario_d :: truth_table where
  "scenario_d = \<lparr>minterms = 0, dont_cares = 15, num_vars = 2, minterm_count = 0\<rparr>"

text \<open>Two variables, the single minterm 0 and the adjacent don't-care 1.\<close>

definition one_minterm_table :: truth_table where
  "one_minterm_table = \<lparr>minterms = 1, dont_cares = 2, num_vars = 2, minterm_count = 1\<rparr>"

text \<open>A solution of the two one-literal terms \<open>A\<close> and \<open>B\<close>.\<close>

definition two_term_solution :: solution where
  "two_term_solution =
     \<lparr>implicants =
        [\<lparr>covered_minterms = 10, literal_mask = 1, literal_values = 1, isize = 2\<rparr>,
         \<lparr>covered_minterms = 12, literal_mask = 2, literal_values = 2, isize = 2\<rparr>],
      literal_count = 2, term_count = 2\<rparr>"

text \<open>Scenario A: three variables, minterms 1, 2 and 5, don't-cares 0, 4 and 6.\<close>

definition scenario_a :: truth_table where
  "scenario_a = \<lparr>minterms = 38, dont_cares = 81, num_vars = 3, minterm_count = 3\<rparr>"

definition scenario_a_solution :: solution where
  "scenario_a_solution =
     \<lparr>implicants =
        [\<lparr>covered_minterms = 34, literal_mask = 3, literal_values = 1, isize = 2\<rparr>,
         \<lparr>covered_minterms = 4, literal_mask = 3, literal_values = 2, isize = 1\<rparr>],
      literal_count = 4, term_count = 2\<rparr>"

text \<open>Three nested covers, the middle one first: cover 1 lies inside cover 0, and both
  lie inside cover 2.\<close>

definition nested_implicants :: "implicant list" where
  "nested_implicants =
     [\<lparr>covered_minterms = 6, literal_mask = 1, literal_values = 0, isize = 2\<rparr>,
      \<lparr>covered_minterms = 2, literal_mask = 3, literal_values = 1, isize = 1\<rparr>,
      \<lparr>covered_minterms = 14, literal_mask = 0, literal_values = 0, isize = 3\<rparr>]"

text \<open>The tables of five and of six variables whose minterms are the cells with an
  even number of 1 bits: no two minterms are adjacent, and there are no don't-cares.\<close>

definition isolated_5 :: truth_table where
  "isolated_5 = \<lparr>minterms = 1771476585, dont_cares = 0, num_vars = 5, minterm_count = 16\<rparr>"




section \<open>The pair pass in the words of the specification\<close>

text \<open>
  Section 4.2 of the specification describes the step of the pair pass for one cell:
  when \<open>cellA\<close> is usable and a still uncovered minterm, the usable cells above it
  are scanned in increasing order for the first adjacent one, \<open>cellB\<close>; on a match the
  implicant of the two cells is emitted, both cells leave the pool and the covered
  minterms leave the remaining ones. The pair pass of the source is compared with
  this step applied to every cell in increasing order.
\<close>

definition first_fit_pair :: "u64 \<Rightarrow> nat \<Rightarrow> nat \<Rightarrow> gstate \<Rightarrow> gstate" where
  "first_fit_pair mt nv cellA st =
     (case st of (rm, av, gs) \<Rightarrow>
        if bit av cellA \<and> bit rm cellA then
          (case find (\<lambda>cellB. bit av cellB \<and> are_adjacent cellA cellB nv) [cellA + 1..<2 ^ nv] of
             None \<Rightarrow> (rm, av, gs)
           | Some cellB \<Rightarrow>
               (rm AND NOT ((push_bit cellA 1 OR push_bit cellB 1) AND mt),
                av AND NOT (push_bit cellA 1 OR push_bit cellB 1),
                gs @ [\<lparr>covered_minterms = (push_bit cellA 1 OR push_bit cellB 1) AND mt,
                       literal_mask = (2 ^ nv - 1) AND NOT (of_nat cellA XOR of_nat cellB),
                       literal_values =
                         of_nat cellA AND ((2 ^ nv - 1) AND NOT (of_nat cellA XOR of_nat cellB)),
                       isize = popcount ((push_bit cellA 1 OR push_bit cellB 1) AND mt)\<rparr>]))
        else (rm, av, gs))"

section \<open>The expression as text\<close>

text \<open>
  The expression that section 4.5 of the specification describes, as a function of the
  implicants alone: one product term per implicant, joined by \<open>" + "\<close>; within a term
  the literals in increasing variable index, joined by \<open>"&"\<close>, each marked with \<open>"~"\<close>
  when its polarity is 0; a term without literals is \<open>"1"\<close>. The loops of
  \<open>generate_sop_expression\<close> are compared with it. \<open>literals_from\<close> and \<open>terms_from\<close>
  give the text that is still to be written when the loops are under way.
\<close>

definition literal_text :: "implicant \<Rightarrow> nat \<Rightarrow> string" where
  "literal_text imp var =
     (if literal_values imp AND push_bit var 1 = 0 then ''~'' else []) @ [var_names ! var]"

fun literals_from :: "implicant \<Rightarrow> bool \<Rightarrow> nat list \<Rightarrow> string" where
  "literals_from imp first_literal [] = []"
| "literals_from imp first_literal (var # vars) =
     (if first_literal then [] else ''&'') @ literal_text imp var @ literals_from imp False vars"

definition term_text :: "implicant \<Rightarrow> nat \<Rightarrow> string" where
  "term_text imp nv =
     (let vars = filter (\<lambda>var. literal_mask imp AND push_bit var 1 \<noteq> 0) [0..<nv]
      in if vars = [] then ''1'' else literals_from imp True vars)"

fun terms_from :: "nat \<Rightarrow> bool \<Rightarrow> implicant list \<Rightarrow> string" where
  "terms_from nv first_term [] = []"
| "terms_from nv first_term (imp # imps) =
     (if first_term then [] else '' + '') @ term_text imp nv @ terms_from nv False imps"

definition sop_text :: "implicant list \<Rightarrow> nat \<Rightarrow> string" where
  "sop_text imps nv = terms_from nv True imps"

text \<open>
  The same expression as the sequence of its tokens: the separators \<open>" + "\<close> and
  \<open>"&"\<close>, the complement mark, the variable names and the constant \<open>"1"\<close>.
  \<open>token_room\<close> is the number that the capacity check made before a token is written
  adds to the current length: the token is written when the sum is less than the size
  of the buffer, and the call returns -3 otherwise. \<open>write_tokens\<close> writes tokens under
  these checks; \<open>Inl\<close> is the buffer at the first check that fails.
\<close>

datatype token = Or_sep | And_sep | Complement | Variable nat | Constant_one

fun token_text :: "token \<Rightarrow> string" where
  "token_text Or_sep = '' + ''"
| "token_text And_sep = ''&''"
| "token_text Complement = ''~''"
| "token_text (Variable var) = [var_names ! var]"
| "token_text Constant_one = ''1''"

fun token_room :: "token \<Rightarrow> int" where
  "token_room Or_sep = 3"
| "token_room And_sep = 1"
| "token_room Complement = 2"
| "token_room (Variable var) = 2"
| "token_room Constant_one = 2"

definition tokens_text :: "token list \<Rightarrow> string" where
  "tokens_text ts = concat (map token_text ts)"

fun literals_tokens :: "implicant \<Rightarrow> bool \<Rightarrow> nat list \<Rightarrow> token list" where
  "literals_tokens imp first_literal [] = []"
| "literals_tokens imp first_literal (var # vars) =
     (if first_literal then [] else [And_sep]) @
     (if literal_values imp AND push_bit var 1 = 0 then [Complement] else []) @
     [Variable var] @ literals_tokens imp False vars"

definition term_tokens :: "implicant \<Rightarrow> nat \<Rightarrow> token list" where
  "term_tokens imp nv =
     (let vars = filter (\<lambda>var. literal_mask imp AND push_bit var 1 \<noteq> 0) [0..<nv]
      in if vars = [] then [Constant_one] else literals_tokens imp True vars)"

fun terms_tokens :: "nat \<Rightarrow> bool \<Rightarrow> implicant list \<Rightarrow> token list" where
  "terms_tokens nv first_term [] = []"
| "terms_tokens nv first_term (imp # imps) =
     (if first_term then [] else [Or_sep]) @ term_tokens imp nv @ terms_tokens nv False imps"

definition sop_tokens :: "implicant list \<Rightarrow> nat \<Rightarrow> token list" where
  "sop_tokens imps nv = terms_tokens nv True imps"

fun write_tokens :: "int \<Rightarrow> token list \<Rightarrow> string \<Rightarrow> string + string" where
  "write_tokens output_len [] out = Inr out"
| "write_tokens output_len (t # ts) out =
     (if int (length out) + token_room t \<ge> output_len then Inl out
      else write_tokens output_len ts (out @ token_text t))"

text \<open>Token \<open>j\<close> of a sequence passes its capacity check when all tokens before it have
  been written.\<close>

definition token_fits :: "token list \<Rightarrow> int \<Rightarrow> nat \<Rightarrow> bool" where
  "token_fits ts output_len j \<longleftrightarrow>
     int (length (tokens_text (take j ts))) + token_room (ts ! j) < output_len"

section \<open>Bits, population counts and adjacency\<close>

text \<open>The recursive equations of the loops are unfolded by hand in the proofs.\<close>

declare pair_scan.simps [simp del] pair_pass.simps [simp del]
  quad_scan4.simps [simp del] quad_scan3.simps [simp del] quad_scan2.simps [simp del]
  quad_pass.simps [simp del] single_pass.simps [simp del]
  redundant_scan.simps [simp del] mark_redundant.simps [simp del] compact.simps [simp del]
  gen_literals.simps [simp del] gen_terms.simps [simp del]

lemma test_bit_u64: "(w AND push_bit c 1 = 0) = (\<not> bit (w::u64) c)"
proof
  assume h: "w AND push_bit c 1 = 0"
  show "\<not> bit w c"
  proof
    assume b: "bit w c"
    then have "c < 64" using bit_imp_le_length[of w c] by simp
    with b have "bit (w AND push_bit c 1) c" by (simp add: bit_simps)
    with h show False by simp
  qed
next
  assume n: "\<not> bit w c"
  show "w AND push_bit c 1 = 0"
  proof (rule bit_eqI)
    fix i show "bit (w AND push_bit c 1) i = bit (0::u64) i"
      using n by (auto simp add: bit_simps)
  qed
qed

lemma test_bit_u64': "(w AND 2 ^ c = 0) = (\<not> bit (w::u64) c)"
  using test_bit_u64[of w c] by simp

lemma bit_push1_u64: "bit (push_bit c 1 :: u64) i = (i = c \<and> c < 64)"
  by (auto simp add: bit_simps)

lemma even_xor_succ_u8: "even k \<Longrightarrow> (of_nat k XOR of_nat (Suc k) :: u8) = 1"
proof -
  assume e: "even k"
  have "(of_nat k :: u8) XOR (of_nat k + 1) = 1"
  proof (rule bit_eqI)
    fix i assume "possible_bit TYPE(u8) i"
    have ev: "even (of_nat k :: u8)" using e by (simp add: even_of_nat)
    show "bit ((of_nat k :: u8) XOR (of_nat k + 1)) i = bit (1::u8) i"
    proof (cases i)
      case 0 then show ?thesis using ev by (simp add: bit_0 even_xor_iff)
    next
      case (Suc j)
      have "(of_nat k + 1 :: u8) div 2 = of_nat k div 2"
        using ev by (simp add: add.commute)
      then have "bit (of_nat k + 1 :: u8) (Suc j) = bit (of_nat k :: u8) (Suc j)"
        by (simp add: bit_Suc)
      then show ?thesis using Suc by (simp add: bit_xor_iff bit_1_iff)
    qed
  qed
  then show ?thesis by (simp add: add.commute)
qed

lemma popcount_1: "popcount 1 = 1"
  by code_simp

lemma adjacent_even_succ: "even k \<Longrightarrow> Suc k < 2 ^ nv \<Longrightarrow> are_adjacent k (Suc k) nv"
  by (simp add: are_adjacent_def even_xor_succ_u8 popcount_1 del: of_nat_Suc)

section \<open>The pair pass: one iteration\<close>

lemma pair_implicant_covered:
  "covered_minterms (pair_implicant mt nv c1 c2) = (push_bit c1 1 OR push_bit c2 1) AND mt"
  by (simp add: pair_implicant_def Let_def)

lemma pair_implicant_cov_nonzero:
  assumes "bit mt c1"
  shows "covered_minterms (pair_implicant mt nv c1 c2) \<noteq> 0"
proof -
  have "c1 < 64" using assms bit_imp_le_length[of mt c1] by simp
  then have "bit (covered_minterms (pair_implicant mt nv c1 c2)) c1"
    using assms by (simp add: pair_implicant_covered bit_simps)
  then show ?thesis by auto
qed

lemma pair_scan_find:
  assumes "bit mt c1"
  shows "pair_scan mt nv c1 c2 (rm, av, gs) =
     (case find (\<lambda>c. bit av c \<and> are_adjacent c1 c nv) [c2..<2 ^ nv] of
        None \<Rightarrow> (rm, av, gs)
      | Some c \<Rightarrow> (rm AND NOT (covered_minterms (pair_implicant mt nv c1 c)),
                   av AND NOT (push_bit c1 1 OR push_bit c 1),
                   gs @ [pair_implicant mt nv c1 c]))"
  using assms
proof (induction mt nv c1 c2 "(rm, av, gs)" rule: pair_scan.induct)
  case (1 mt nv cell1 cell2)
  show ?case
  proof (cases "cell2 < 2 ^ nv")
    case False
    then show ?thesis by (subst pair_scan.simps) simp
  next
    case True
    then have upt: "[cell2..<2 ^ nv] = cell2 # [cell2 + 1..<2 ^ nv]"
      by (simp add: upt_conv_Cons)
    show ?thesis
      using True 1 pair_implicant_cov_nonzero[OF \<open>bit mt cell1\<close>, of nv cell2]
      by (subst pair_scan.simps) (simp add: upt test_bit_u64' Let_def del: upt_Suc)
  qed
qed

lemma pair_cell_cases:
  assumes "\<forall>i. bit rm i \<longrightarrow> bit mt i"
  obtains (skip) "\<not> bit rm k \<or> \<not> bit av k" "pair_cell mt nv k (rm, av, gs) = (rm, av, gs)"
  | (none) "bit av k" "bit rm k"
      "\<forall>c. k < c \<and> c < 2 ^ nv \<and> bit av c \<longrightarrow> \<not> are_adjacent k c nv"
      "pair_cell mt nv k (rm, av, gs) = (rm, av, gs)"
  | (pair) c where "bit av k" "bit rm k" "k < c" "c < 2 ^ nv" "bit av c" "are_adjacent k c nv"
      "\<forall>c'. k < c' \<and> c' < c \<and> bit av c' \<longrightarrow> \<not> are_adjacent k c' nv"
      "pair_cell mt nv k (rm, av, gs) =
         (rm AND NOT (covered_minterms (pair_implicant mt nv k c)),
          av AND NOT (push_bit k 1 OR push_bit c 1),
          gs @ [pair_implicant mt nv k c])"
proof (cases "bit rm k \<and> bit av k")
  case False
  then have "pair_cell mt nv k (rm, av, gs) = (rm, av, gs)"
    by (auto simp add: test_bit_u64')
  with False skip show ?thesis by blast
next
  case True
  then have mk: "bit mt k" using assms by blast
  have pc: "pair_cell mt nv k (rm, av, gs) = pair_scan mt nv k (k + 1) (rm, av, gs)"
    using True by (simp add: test_bit_u64')
  show ?thesis
  proof (cases "find (\<lambda>c. bit av c \<and> are_adjacent k c nv) [k + 1..<2 ^ nv]")
    case None
    then have "\<forall>c. k < c \<and> c < 2 ^ nv \<and> bit av c \<longrightarrow> \<not> are_adjacent k c nv"
      by (auto simp add: find_None_iff)
    moreover have "pair_cell mt nv k (rm, av, gs) = (rm, av, gs)"
      using None pc pair_scan_find[OF mk, of nv "k + 1" rm av gs] by simp
    ultimately show ?thesis using True none by blast
  next
    case (Some c)
    then obtain i where i: "i < length [k + 1..<2 ^ nv]"
        "bit av ([k + 1..<2 ^ nv] ! i) \<and> are_adjacent k ([k + 1..<2 ^ nv] ! i) nv"
        "c = [k + 1..<2 ^ nv] ! i"
        "\<forall>j<i. \<not> (bit av ([k + 1..<2 ^ nv] ! j) \<and> are_adjacent k ([k + 1..<2 ^ nv] ! j) nv)"
      unfolding find_Some_iff by blast
    have c: "c = k + 1 + i" "k < c" "c < 2 ^ nv" "bit av c" "are_adjacent k c nv"
      using i by auto
    have least: "\<forall>c'. k < c' \<and> c' < c \<and> bit av c' \<longrightarrow> \<not> are_adjacent k c' nv"
    proof (intro allI impI)
      fix c' assume h: "k < c' \<and> c' < c \<and> bit av c'"
      then have "c' - (k + 1) < i" using c by linarith
      moreover have "[k + 1..<2 ^ nv] ! (c' - (k + 1)) = c'"
        using h c by (simp add: nth_upt)
      ultimately show "\<not> are_adjacent k c' nv" using i(4) h by metis
    qed
    have "pair_cell mt nv k (rm, av, gs) =
         (rm AND NOT (covered_minterms (pair_implicant mt nv k c)),
          av AND NOT (push_bit k 1 OR push_bit c 1),
          gs @ [pair_implicant mt nv k c])"
      using Some pc pair_scan_find[OF mk, of nv "k + 1" rm av gs] by simp
    then show ?thesis using pair[of c] True c least by blast
  qed
qed

lemma covered_union_append:
  "covered_union (gs @ [g]) = covered_union gs OR covered_minterms g"
  by (simp add: covered_union_def)

lemma popcount_eq_0_iff: "popcount w = 0 \<longleftrightarrow> w = 0"
proof
  assume "popcount w = 0"
  then have a: "\<forall>i<64. \<not> bit w i"
    by (auto simp add: popcount_def filter_empty_conv)
  show "w = 0"
  proof (rule bit_eqI)
    fix i show "bit w i = bit (0::u64) i"
      using a bit_imp_le_length[of w i] by auto
  qed
next
  assume "w = 0" then show "popcount w = 0" by (simp add: popcount_def)
qed

lemma popcount_ucast_u8: "popcount (ucast (x::u8)) = length (filter (bit x) [0..<8])"
proof -
  have split: "[0..<64] = [0..<8] @ [8..<64]"
    using upt_add_eq_append[of 0 8 56] by simp
  have a: "filter (bit (ucast x :: u64)) [0..<8] = filter (bit x) [0..<8]"
    by (rule filter_cong) (auto simp add: bit_ucast_iff simp del: upt_rec_numeral)
  have "\<forall>i\<in>set [8..<64]. \<not> bit (ucast x :: u64) i"
  proof
    fix i assume "i \<in> set [8..<64]"
    then have "\<not> bit x i" using bit_imp_le_length[of x i] by auto
    then show "\<not> bit (ucast x :: u64) i" by (simp add: bit_ucast_iff)
  qed
  then have b: "filter (bit (ucast x :: u64)) [8..<64] = []"
    unfolding filter_empty_conv by blast
  show ?thesis unfolding popcount_def split filter_append a b by simp
qed

lemma filter_and_not_split:
  "length (filter (bit (a AND NOT d)) xs) + length (filter (bit (a AND d)) xs)
     = length (filter (bit (a::u8)) xs)"
  by (induction xs) (auto simp add: bit_and_iff bit_not_iff dest: bit_imp_le_length)

lemma filter_less_upt: "filter (\<lambda>i. i < n) [0..<m] = [0..<min n m]"
proof (induction m)
  case 0
  then show ?case by simp
next
  case (Suc m)
  show ?case
  proof (cases "m < n")
    case True
    then have "min n (Suc m) = Suc m" "min n m = m" by auto
    then show ?thesis using Suc True by simp
  next
    case False
    then have "min n (Suc m) = n" "min n m = n" by auto
    then show ?thesis using Suc False by simp
  qed
qed

lemma popcount_low_mask: "nv \<le> 8 \<Longrightarrow> length (filter (bit (2 ^ nv - 1 :: u8)) [0..<8]) = nv"
proof -
  assume nv: "nv \<le> 8"
  have "filter (bit (2 ^ nv - 1 :: u8)) [0..<8] = filter (\<lambda>i. i < nv) [0..<8]"
    by (rule filter_cong) (auto simp add: bit_mask_iff simp flip: mask_eq_exp_minus_1 simp del: upt_rec_numeral)
  then show ?thesis using nv by (simp add: filter_less_upt del: upt_Suc upt_rec_numeral)
qed

lemma bit_nat_less: "bit (c::nat) i \<Longrightarrow> c < 2 ^ nv \<Longrightarrow> i < nv"
proof (rule ccontr)
  assume b: "bit c i" and c: "c < 2 ^ nv" and "\<not> i < nv"
  then have "(2::nat) ^ nv \<le> 2 ^ i" by simp
  with c have "c < 2 ^ i" by linarith
  then have "c div 2 ^ i = 0" by simp
  with b show False by (simp add: bit_iff_odd)
qed

lemma bit_of_nat_u8_less: "bit (of_nat c :: u8) i \<Longrightarrow> c < 2 ^ nv \<Longrightarrow> i < nv"
  using bit_nat_less[of c i nv] by (auto simp add: bit_of_nat_iff)

lemma pair_mask_popcount:
  assumes "are_adjacent k c nv" "nv \<le> 8"
  shows "popcount (ucast (literal_mask (pair_implicant mt nv k c))) = nv - 1"
proof -
  let ?d = "of_nat k XOR of_nat c :: u8"
  let ?a = "2 ^ nv - 1 :: u8"
  have kc: "k < 2 ^ nv" "c < 2 ^ nv" and pd: "popcount (ucast ?d) = 1"
    using assms(1) by (auto simp add: are_adjacent_def Let_def split: if_splits)
  have "?a AND ?d = ?d"
  proof (rule bit_word_eqI)
    fix i assume "i < LENGTH(8)"
    then show "bit (?a AND ?d) i = bit ?d i"
      using bit_of_nat_u8_less[OF _ kc(1), of i] bit_of_nat_u8_less[OF _ kc(2), of i]
      by (auto simp add: bit_and_iff bit_xor_iff bit_mask_iff simp flip: mask_eq_exp_minus_1)
  qed
  then have "length (filter (bit (?a AND NOT ?d)) [0..<8]) + 1 = nv"
    using filter_and_not_split[of ?a ?d "[0..<8]"] pd popcount_low_mask[OF assms(2)]
    by (simp add: popcount_ucast_u8 del: upt_Suc upt_rec_numeral)
  then show ?thesis
    by (simp add: pair_implicant_def Let_def popcount_ucast_u8 del: upt_Suc upt_rec_numeral)
qed

lemma pair_faithful:
  "(of_nat c :: u8) AND literal_mask (pair_implicant mt nv k c) = literal_values (pair_implicant mt nv k c)"
  "(of_nat k :: u8) AND literal_mask (pair_implicant mt nv k c) = literal_values (pair_implicant mt nv k c)"
proof -
  show "(of_nat c :: u8) AND literal_mask (pair_implicant mt nv k c) = literal_values (pair_implicant mt nv k c)"
    unfolding pair_implicant_def Let_def
    by (rule bit_eqI) (auto simp add: bit_and_iff bit_xor_iff bit_not_iff)
  show "(of_nat k :: u8) AND literal_mask (pair_implicant mt nv k c) = literal_values (pair_implicant mt nv k c)"
    by (simp add: pair_implicant_def Let_def)
qed

lemma pair_group_ok:
  assumes "bit mt k" "are_adjacent k c nv" "nv \<le> 8"
  shows "group_ok mt nv (pair_implicant mt nv k c)"
proof -
  have nz: "covered_minterms (pair_implicant mt nv k c) \<noteq> 0"
    by (rule pair_implicant_cov_nonzero[OF assms(1)])
  have sz: "isize (pair_implicant mt nv k c) \<noteq> 0"
    using nz by (simp add: pair_implicant_def Let_def popcount_eq_0_iff)
  have cov: "\<forall>m. bit (covered_minterms (pair_implicant mt nv k c)) m \<longrightarrow>
        bit mt m \<and> (of_nat m :: u8) AND literal_mask (pair_implicant mt nv k c)
          = literal_values (pair_implicant mt nv k c)"
  proof (intro allI impI)
    fix m assume "bit (covered_minterms (pair_implicant mt nv k c)) m"
    then have "bit mt m" "m = k \<or> m = c"
      by (auto simp add: pair_implicant_covered bit_and_iff bit_or_iff bit_exp_iff)
    then show "bit mt m \<and> (of_nat m :: u8) AND literal_mask (pair_implicant mt nv k c)
          = literal_values (pair_implicant mt nv k c)"
      using pair_faithful(1)[of c mt nv k] pair_faithful(2)[of k mt nv c] by auto
  qed
  show ?thesis
    unfolding group_ok_def using nz sz cov pair_mask_popcount[OF assms(2,3), of mt] by simp
qed

section \<open>The pair pass: the loop invariant\<close>

lemma even_Suc_less_pow2:
  assumes "even k" "k < 2 ^ nv" "1 \<le> nv"
  shows "Suc k < 2 ^ nv"
proof -
  obtain m where "nv = Suc m" using assms(3) by (cases nv) auto
  then have "even ((2::nat) ^ nv)" by simp
  then have "Suc k \<noteq> 2 ^ nv" using assms(1) by (metis even_Suc)
  then show ?thesis using assms(2) by linarith
qed

lemma count_step:
  assumes "f \<le> (k + 1) div 2" "odd k \<longrightarrow> f \<le> k div 2"
  shows "Suc f \<le> (Suc k + 1) div 2"
  using assms by presburger

lemma pair_inv_step:
  assumes inv: "pair_inv mt nv k (rm, av, gs)" and k: "k < 2 ^ nv" and nv: "1 \<le> nv" "nv \<le> 8"
  shows "pair_inv mt nv (Suc k) (pair_cell mt nv k (rm, av, gs))"
proof -
  let ?f = "length gs + length (filter (bit rm) [0..<k])"
  from inv have sub: "\<forall>i. bit rm i \<longrightarrow> bit av i \<and> bit mt i"
    and dom: "\<forall>i. bit av i \<longrightarrow> i < 2 ^ nv"
    and cov: "covered_union gs OR rm = mt"
    and cnt1: "?f \<le> (k + 1) div 2"
    and cnt2: "odd k \<and> bit av k \<longrightarrow> ?f \<le> k div 2"
    and adj: "\<forall>c1 c2. c1 < k \<and> bit rm c1 \<and> c1 < c2 \<and> bit av c2 \<longrightarrow> \<not> are_adjacent c1 c2 nv"
    and gok: "\<forall>g\<in>set gs. group_ok mt nv g"
    unfolding pair_inv_def by auto
  have sub': "\<forall>i. bit rm i \<longrightarrow> bit mt i" using sub by blast
  from sub' show ?thesis
  proof (cases rule: pair_cell_cases[where k = k and av = av and nv = nv and gs = gs])
    case skip
    then have nk: "\<not> bit rm k" using sub by blast
    have c1: "length gs + length (filter (bit rm) [0..<Suc k]) \<le> (Suc k + 1) div 2"
      using cnt1 nk by simp
    have c2: "odd (Suc k) \<and> bit av (Suc k) \<longrightarrow>
        length gs + length (filter (bit rm) [0..<Suc k]) \<le> Suc k div 2"
      using cnt1 nk by auto
    have a: "\<forall>c1 c2. c1 < Suc k \<and> bit rm c1 \<and> c1 < c2 \<and> bit av c2 \<longrightarrow> \<not> are_adjacent c1 c2 nv"
      using adj nk less_Suc_eq by blast
    show ?thesis
      unfolding skip(2) pair_inv_def using sub dom cov c1 c2 a gok by simp
  next
    case none
    have f: "?f \<le> (k + 1) div 2" "odd k \<longrightarrow> ?f \<le> k div 2"
      using cnt1 cnt2 none(1) by auto
    have c1: "length gs + length (filter (bit rm) [0..<Suc k]) \<le> (Suc k + 1) div 2"
      using count_step[OF f] none(2) by simp
    have c2: "odd (Suc k) \<and> bit av (Suc k) \<longrightarrow>
        length gs + length (filter (bit rm) [0..<Suc k]) \<le> Suc k div 2"
    proof
      assume h: "odd (Suc k) \<and> bit av (Suc k)"
      then have ev: "even k" by simp
      have lt: "Suc k < 2 ^ nv" by (rule even_Suc_less_pow2[OF ev k nv(1)])
      have "are_adjacent k (Suc k) nv" by (rule adjacent_even_succ[OF ev lt])
      with none(3) lt h show "length gs + length (filter (bit rm) [0..<Suc k]) \<le> Suc k div 2"
        by auto
    qed
    have a: "\<forall>c1 c2. c1 < Suc k \<and> bit rm c1 \<and> c1 < c2 \<and> bit av c2 \<longrightarrow> \<not> are_adjacent c1 c2 nv"
    proof (intro allI impI)
      fix c1 c2 assume h: "c1 < Suc k \<and> bit rm c1 \<and> c1 < c2 \<and> bit av c2"
      show "\<not> are_adjacent c1 c2 nv"
      proof (cases "c1 = k")
        case True
        then show ?thesis using none(3) h dom by auto
      next
        case False
        then have "c1 < k" using h by simp
        then show ?thesis using adj h by blast
      qed
    qed
    show ?thesis
      unfolding none(4) pair_inv_def using sub dom cov c1 c2 a gok by simp
  next
    case (pair c)
    define g where "g = pair_implicant mt nv k c"
    define rm' where "rm' = rm AND NOT (covered_minterms g)"
    define av' where "av' = av AND NOT (push_bit k 1 OR push_bit c 1)"
    have st: "pair_cell mt nv k (rm, av, gs) = (rm', av', gs @ [g])"
      unfolding pair(8) g_def rm'_def av'_def by simp
    have mk: "bit mt k" using sub pair(2) by blast
    have k64: "k < 64" using mk bit_imp_le_length[of mt k] by simp
    have c64: "c < 64" using pair(5) bit_imp_le_length[of av c] by simp
    have bcm: "\<And>i. bit (covered_minterms g) i \<longleftrightarrow> (i = k \<or> i = c) \<and> bit mt i"
      unfolding g_def using k64 c64
      by (auto simp add: pair_implicant_covered bit_and_iff bit_or_iff bit_exp_iff)
    have brm: "\<And>i. bit rm' i \<longleftrightarrow> bit rm i \<and> i \<noteq> k \<and> i \<noteq> c"
      unfolding rm'_def using sub bit_imp_le_length[of rm]
      by (auto simp add: bit_and_iff bit_not_iff bcm)
    have bav: "\<And>i. bit av' i \<longleftrightarrow> bit av i \<and> i \<noteq> k \<and> i \<noteq> c"
      unfolding av'_def using bit_imp_le_length[of av] k64 c64
      by (auto simp add: bit_and_iff bit_not_iff bit_or_iff bit_exp_iff)
    have s': "\<forall>i. bit rm' i \<longrightarrow> bit av' i \<and> bit mt i"
      using sub by (simp add: brm bav)
    have d': "\<forall>i. bit av' i \<longrightarrow> i < 2 ^ nv"
      using dom by (simp add: bav)
    have cv': "covered_union (gs @ [g]) OR rm' = mt"
    proof (rule bit_word_eqI)
      fix i assume "i < LENGTH(64)"
      have "bit mt i \<longleftrightarrow> bit (covered_union gs) i \<or> bit rm i"
        using cov by (metis bit_or_iff)
      then show "bit (covered_union (gs @ [g]) OR rm') i = bit mt i"
        using sub by (auto simp add: covered_union_append bit_or_iff bcm brm)
    qed
    have fl: "filter (bit rm') [0..<Suc k] = filter (bit rm) [0..<k]"
    proof -
      have "filter (bit rm') [0..<k] = filter (bit rm) [0..<k]"
        using pair(3) by (intro filter_cong) (auto simp add: brm)
      then show ?thesis by (simp add: brm)
    qed
    have f: "?f \<le> (k + 1) div 2" "odd k \<longrightarrow> ?f \<le> k div 2"
      using cnt1 cnt2 pair(1) by auto
    have c1: "length (gs @ [g]) + length (filter (bit rm') [0..<Suc k]) \<le> (Suc k + 1) div 2"
      using count_step[OF f] unfolding fl by simp
    have c2: "odd (Suc k) \<and> bit av' (Suc k) \<longrightarrow>
        length (gs @ [g]) + length (filter (bit rm') [0..<Suc k]) \<le> Suc k div 2"
    proof
      assume h: "odd (Suc k) \<and> bit av' (Suc k)"
      then have ev: "even k" by simp
      have lt: "Suc k < 2 ^ nv" by (rule even_Suc_less_pow2[OF ev k nv(1)])
      have ad: "are_adjacent k (Suc k) nv" by (rule adjacent_even_succ[OF ev lt])
      have "c \<noteq> Suc k" using h by (simp add: bav)
      then have "Suc k < c" using pair(3) by linarith
      then have "\<not> bit av (Suc k)" using pair(7) ad by auto
      then show "length (gs @ [g]) + length (filter (bit rm') [0..<Suc k]) \<le> Suc k div 2"
        using h by (simp add: bav)
    qed
    have a: "\<forall>c1 c2. c1 < Suc k \<and> bit rm' c1 \<and> c1 < c2 \<and> bit av' c2 \<longrightarrow> \<not> are_adjacent c1 c2 nv"
    proof (intro allI impI)
      fix c1 c2 assume h: "c1 < Suc k \<and> bit rm' c1 \<and> c1 < c2 \<and> bit av' c2"
      then have "c1 < k" "bit rm c1" "bit av c2" by (auto simp add: brm bav)
      then show "\<not> are_adjacent c1 c2 nv" using adj h by blast
    qed
    have g': "\<forall>x\<in>set (gs @ [g]). group_ok mt nv x"
      using gok pair_group_ok[OF mk pair(6) nv(2)] unfolding g_def by auto
    show ?thesis
      unfolding st pair_inv_def using s' d' cv' c1 c2 a g' by simp
  qed
qed

lemma bit_domain_mask:
  assumes "w AND NOT (mask (2 ^ nv)) = (0::u64)" "bit w i"
  shows "i < 2 ^ nv"
proof (rule ccontr)
  assume "\<not> i < 2 ^ nv"
  then have "bit (w AND NOT (mask (2 ^ nv))) i"
    using assms(2) bit_imp_le_length[of w i] by (simp add: bit_and_iff bit_not_iff bit_mask_iff)
  then show False using assms(1) by simp
qed

lemma pair_inv_init:
  assumes "(mt OR dc) AND NOT (mask (2 ^ nv)) = 0"
  shows "pair_inv mt nv 0 (mt, mt OR dc, [])"
  unfolding pair_inv_def using bit_domain_mask[OF assms]
  by (auto simp add: bit_or_iff covered_union_def)

lemma pair_inv_exit:
  assumes inv: "pair_inv mt nv k (rm, av, gs)" and k: "k \<le> 2 ^ nv" and nv: "1 \<le> nv" "nv \<le> 6"
    and ex: "\<not> (k < 2 ^ nv \<and> length gs < MAX_GROUPS)"
  shows "pair_post mt nv (rm, av, gs)"
proof -
  let ?f = "length gs + length (filter (bit rm) [0..<k])"
  from inv have sub: "\<forall>i. bit rm i \<longrightarrow> bit av i \<and> bit mt i"
    and dom: "\<forall>i. bit av i \<longrightarrow> i < 2 ^ nv"
    and cov: "covered_union gs OR rm = mt"
    and cnt1: "?f \<le> (k + 1) div 2"
    and cnt2: "odd k \<and> bit av k \<longrightarrow> ?f \<le> k div 2"
    and adj: "\<forall>c1 c2. c1 < k \<and> bit rm c1 \<and> c1 < c2 \<and> bit av c2 \<longrightarrow> \<not> are_adjacent c1 c2 nv"
    and gok: "\<forall>g\<in>set gs. group_ok mt nv g"
    unfolding pair_inv_def by auto
  obtain m where m: "nv = Suc m" using nv(1) by (cases nv) auto
  have half: "((2::nat) ^ nv + 1) div 2 = 2 ^ (nv - 1)" unfolding m by simp
  have p1: "\<forall>i. bit rm i \<longrightarrow> bit mt i \<and> i < 2 ^ nv" using sub dom by blast
  show ?thesis
  proof (cases "k < 2 ^ nv")
    case False
    then have keq: "k = 2 ^ nv" using k by simp
    have "\<forall>c1 c2. bit rm c1 \<and> c1 < c2 \<and> bit av c2 \<longrightarrow> \<not> are_adjacent c1 c2 nv"
      using adj p1 keq by blast
    moreover have "length gs + length (filter (bit rm) [0..<2 ^ nv]) \<le> 2 ^ (nv - 1)"
      using cnt1 half unfolding keq by simp
    ultimately show ?thesis unfolding pair_post_def using p1 cov gok by simp
  next
    case True
    then have full: "32 \<le> length gs" using ex by (simp add: MAX_GROUPS_def)
    have "(2::nat) ^ nv \<le> 2 ^ 6" using nv(2) by (rule power_increasing) simp
    then have k64: "k < 64" using True by simp
    then have "(k + 1) div 2 \<le> 32" by simp
    with cnt1 full have lg: "length gs = 32" and r0': "length (filter (bit rm) [0..<k]) = 0"
      and kk: "(k + 1) div 2 = 32" by linarith+
    from r0' have r0: "filter (bit rm) [0..<k] = []" by simp
    from kk k64 have k63: "k = 63" by presburger
    have nav: "\<not> bit av 63"
    proof
      assume "bit av 63"
      then have "?f \<le> k div 2" using cnt2 k63 by simp
      then show False using lg k63 by simp
    qed
    have rm0: "\<forall>i. \<not> bit rm i"
    proof
      fix i
      show "\<not> bit rm i"
      proof
        assume b: "bit rm i"
        then have "i < 64" using bit_imp_le_length[of rm i] by simp
        moreover have "i \<noteq> 63" using b sub nav by blast
        ultimately have "i \<in> set [0..<k]" using k63 by simp
        then have "i \<in> set (filter (bit rm) [0..<k])" using b by simp
        then show False using r0 by simp
      qed
    qed
    have "nv = 6"
    proof (rule ccontr)
      assume "nv \<noteq> 6"
      then have "nv \<le> 5" using nv(2) by simp
      then have "(2::nat) ^ nv \<le> 2 ^ 5" by (rule power_increasing) simp
      then show False using True k63 by simp
    qed
    then have "length gs + length (filter (bit rm) [0..<2 ^ nv]) \<le> 2 ^ (nv - 1)"
      using lg rm0 by simp
    then show ?thesis unfolding pair_post_def using p1 cov gok rm0 by simp
  qed
qed

lemma pair_pass_post:
  assumes "pair_inv mt nv k st" "k \<le> 2 ^ nv" "1 \<le> nv" "nv \<le> 6"
  shows "pair_post mt nv (pair_pass mt nv k st)"
  using assms
proof (induction mt nv k st rule: pair_pass.induct)
  case (1 mt nv cell1 rm av gs)
  show ?case
  proof (cases "cell1 < 2 ^ nv \<and> length gs < MAX_GROUPS")
    case True
    have nv8: "nv \<le> 8" using "1.prems"(4) by simp
    have step: "pair_inv mt nv (Suc cell1) (pair_cell mt nv cell1 (rm, av, gs))"
      using pair_inv_step[OF "1.prems"(1) _ "1.prems"(3) nv8] True by blast
    obtain rm' av' gs' where st': "pair_cell mt nv cell1 (rm, av, gs) = (rm', av', gs')"
      by (cases "pair_cell mt nv cell1 (rm, av, gs)") auto
    have "pair_post mt nv (pair_pass mt nv (cell1 + 1) (pair_cell mt nv cell1 (rm, av, gs)))"
      using "1.IH"[OF True] step True "1.prems"(3,4) unfolding st' by simp
    then show ?thesis using True by (subst pair_pass.simps) (simp del: pair_cell.simps)
  next
    case False
    then have "pair_pass mt nv cell1 (rm, av, gs) = (rm, av, gs)"
      by (subst pair_pass.simps) (auto simp del: pair_cell.simps)
    then show ?thesis using pair_inv_exit[OF "1.prems" False] by simp
  qed
qed

lemma pair_pass_establishes:
  assumes "(mt OR dc) AND NOT (mask (2 ^ nv)) = 0" "1 \<le> nv" "nv \<le> 6"
  shows "pair_post mt nv (pair_pass mt nv 0 (mt, mt OR dc, []))"
  using pair_pass_post[OF pair_inv_init[OF assms(1)] _ assms(2,3)] by simp

section \<open>The quad pass, the singleton pass and the engine as a whole\<close>

lemma quad_scan2_none:
  assumes "\<forall>c. c2 \<le> c \<and> bit av c \<longrightarrow> \<not> are_adjacent c1 c nv"
  shows "quad_scan2 mt nv c1 c2 (rm, av, gs) = None"
  using assms
proof (induction mt nv c1 c2 "(rm, av, gs)" rule: quad_scan2.induct)
  case (1 mt nv c1 c2)
  show ?case
  proof (cases "c2 < 2 ^ nv")
    case False
    then show ?thesis by (subst quad_scan2.simps) simp
  next
    case True
    have rec: "quad_scan2 mt nv c1 (c2 + 1) (rm, av, gs) = None"
    proof (cases "are_adjacent c1 c2 nv")
      case False
      then show ?thesis using "1.hyps"(1)[OF True] "1.prems" by simp
    next
      case adj: True
      then have "\<not> bit av c2" using "1.prems" by auto
      then have nb: "av AND push_bit c2 1 = 0" by (simp add: test_bit_u64')
      show ?thesis using "1.hyps"(2)[OF True _ nb] adj "1.prems" by simp
    qed
    have "\<not> are_adjacent c1 c2 nv \<or> av AND push_bit c2 1 = 0"
      using "1.prems" by (auto simp add: test_bit_u64')
    then show ?thesis using True rec
      by (subst quad_scan2.simps) auto
  qed
qed

lemma quad_pass_noop:
  assumes "\<forall>c1 c2. bit rm c1 \<and> c1 < c2 \<and> bit av c2 \<longrightarrow> \<not> are_adjacent c1 c2 nv"
  shows "quad_pass mt nv k (rm, av, gs) = (rm, av, gs)"
  using assms
proof (induction mt nv k "(rm, av, gs)" rule: quad_pass.induct)
  case (1 mt nv cell1)
  show ?case
  proof (cases "cell1 < 2 ^ nv \<and> length gs < MAX_GROUPS \<and> rm \<noteq> 0")
    case False
    then show ?thesis by (subst quad_pass.simps) auto
  next
    case True
    show ?thesis
    proof (cases "rm AND push_bit cell1 1 = 0")
      case z: True
      have "quad_pass mt nv (cell1 + 1) (rm, av, gs) = (rm, av, gs)"
        using "1.hyps"(1)[OF True z] "1.prems" by simp
      then show ?thesis using True z
        by (subst quad_pass.simps) simp
    next
      case nz: False
      then have b: "bit rm cell1" by (simp add: test_bit_u64')
      have "\<forall>c. cell1 + 1 \<le> c \<and> bit av c \<longrightarrow> \<not> are_adjacent cell1 c nv"
        using "1.prems" b by auto
      then have none: "quad_scan2 mt nv cell1 (cell1 + 1) (rm, av, gs) = None"
        by (rule quad_scan2_none)
      have "quad_pass mt nv (cell1 + 1) (rm, av, gs) = (rm, av, gs)"
        using "1.hyps"(2)[OF True nz none] "1.prems" by simp
      then show ?thesis using True nz none
        by (subst quad_pass.simps) simp
    qed
  qed
qed

lemma single_pass_all:
  assumes "length gs + length (filter (bit rm) [k..<2 ^ nv]) \<le> MAX_GROUPS"
  shows "single_pass nv k (rm, av, gs) =
           (rm, av, gs @ map (single_implicant nv) (filter (bit rm) [k..<2 ^ nv]))"
  using assms
proof (induction "2 ^ nv - k" arbitrary: k gs)
  case 0
  then have "\<not> k < 2 ^ nv" by simp
  then show ?case by (subst single_pass.simps) simp
next
  case (Suc n)
  then have lt: "k < 2 ^ nv" by simp
  then have upt: "[k..<2 ^ nv] = k # [Suc k..<2 ^ nv]" by (simp add: upt_conv_Cons)
  show ?case
  proof (cases "length gs < MAX_GROUPS")
    case False
    then have "length (filter (bit rm) [k..<2 ^ nv]) = 0" using Suc.prems by linarith
    then have "filter (bit rm) [k..<2 ^ nv] = []" by (simp del: upt_Suc)
    then show ?thesis using False by (subst single_pass.simps) simp
  next
    case True
    have n: "n = 2 ^ nv - Suc k" using Suc.hyps(2) by simp
    show ?thesis
    proof (cases "bit rm k")
      case b: True
      have "length (gs @ [single_implicant nv k]) + length (filter (bit rm) [Suc k..<2 ^ nv]) \<le> MAX_GROUPS"
        using Suc.prems b unfolding upt by simp
      then have "single_pass nv (Suc k) (rm, av, gs @ [single_implicant nv k]) =
           (rm, av, (gs @ [single_implicant nv k]) @ map (single_implicant nv) (filter (bit rm) [Suc k..<2 ^ nv]))"
        by (rule Suc.hyps(1)[OF n])
      then show ?thesis using lt True b unfolding upt
        by (subst single_pass.simps) (simp add: test_bit_u64')
    next
      case nb: False
      have "length gs + length (filter (bit rm) [Suc k..<2 ^ nv]) \<le> MAX_GROUPS"
        using Suc.prems nb unfolding upt by simp
      then have "single_pass nv (Suc k) (rm, av, gs) =
           (rm, av, gs @ map (single_implicant nv) (filter (bit rm) [Suc k..<2 ^ nv]))"
        by (rule Suc.hyps(1)[OF n])
      then show ?thesis using lt True nb unfolding upt
        by (subst single_pass.simps) (simp add: test_bit_u64')
    qed
  qed
qed

lemma pow_half_le_MAX_GROUPS: "nv \<le> 6 \<Longrightarrow> (2::nat) ^ (nv - 1) \<le> MAX_GROUPS"
proof -
  assume "nv \<le> 6"
  then have "(2::nat) ^ (nv - 1) \<le> 2 ^ 5" by (intro power_increasing) auto
  then show ?thesis by (simp add: MAX_GROUPS_def)
qed

lemma find_groups_structure:
  assumes dom: "(mt OR dc) AND NOT (mask (2 ^ nv)) = 0" and nv: "1 \<le> nv" "nv \<le> 6"
  obtains rm av gs where
    "pair_pass mt nv 0 (mt, mt OR dc, []) = (rm, av, gs)"
    "pair_post mt nv (rm, av, gs)"
    "quad_pass mt nv 0 (rm, av, gs) = (rm, av, gs)"
    "find_groups_with_dont_cares mt dc nv =
       gs @ map (single_implicant nv) (filter (bit rm) [0..<2 ^ nv])"
proof -
  obtain rm av gs where pp: "pair_pass mt nv 0 (mt, mt OR dc, []) = (rm, av, gs)"
    by (cases "pair_pass mt nv 0 (mt, mt OR dc, [])") auto
  have post: "pair_post mt nv (rm, av, gs)"
    using pair_pass_establishes[OF dom nv] unfolding pp .
  then have adj: "\<forall>c1 c2. bit rm c1 \<and> c1 < c2 \<and> bit av c2 \<longrightarrow> \<not> are_adjacent c1 c2 nv"
    and cnt: "length gs + length (filter (bit rm) [0..<2 ^ nv]) \<le> 2 ^ (nv - 1)"
    unfolding pair_post_def by auto
  have q: "quad_pass mt nv 0 (rm, av, gs) = (rm, av, gs)"
    by (rule quad_pass_noop[OF adj])
  have "length gs + length (filter (bit rm) [0..<2 ^ nv]) \<le> MAX_GROUPS"
    using cnt pow_half_le_MAX_GROUPS[OF nv(2)] by linarith
  then have s: "single_pass nv 0 (rm, av, gs) =
      (rm, av, gs @ map (single_implicant nv) (filter (bit rm) [0..<2 ^ nv]))"
    by (rule single_pass_all)
  have "find_groups_with_dont_cares mt dc nv =
       gs @ map (single_implicant nv) (filter (bit rm) [0..<2 ^ nv])"
    unfolding find_groups_with_dont_cares_def Let_def pp q s by simp
  then show ?thesis using that pp post q by blast
qed

lemma bit_covered_union:
  "bit (covered_union xs) i \<longleftrightarrow> (\<exists>g\<in>set xs. bit (covered_minterms g) i)"
proof (induction xs rule: rev_induct)
  case Nil
  then show ?case by (simp add: covered_union_def)
next
  case (snoc x xs)
  then show ?case by (auto simp add: covered_union_append bit_or_iff)
qed

lemma single_group_ok:
  assumes "bit mt c" "c < 2 ^ nv" "nv \<le> 8"
  shows "group_ok mt nv (single_implicant nv c)"
proof -
  have c64: "c < 64" using assms(1) bit_imp_le_length[of mt c] by simp
  have b: "\<And>m. bit (push_bit c 1 :: u64) m \<longleftrightarrow> m = c"
    using c64 by (auto simp add: bit_exp_iff)
  have nz: "(push_bit c 1 :: u64) \<noteq> 0"
  proof
    assume "(push_bit c 1 :: u64) = 0"
    then show False using c64 by simp
  qed
  have val: "(of_nat c :: u8) AND (2 ^ nv - 1) = of_nat c"
  proof (rule bit_word_eqI)
    fix i assume "i < LENGTH(8)"
    then show "bit ((of_nat c :: u8) AND (2 ^ nv - 1)) i = bit (of_nat c :: u8) i"
      using bit_of_nat_u8_less[OF _ assms(2), of i]
      by (auto simp add: bit_and_iff bit_mask_iff simp flip: mask_eq_exp_minus_1)
  qed
  have pc: "popcount (ucast (2 ^ nv - 1 :: u8)) = nv"
    using popcount_low_mask[OF assms(3)] by (simp add: popcount_ucast_u8 del: upt_rec_numeral)
  show ?thesis
    unfolding group_ok_def single_implicant_def
    using nz b val pc assms(1) by (simp del: push_bit_of_1)
qed

lemma engine_groups_ok:
  assumes "(mt OR dc) AND NOT (mask (2 ^ nv)) = 0" "1 \<le> nv" "nv \<le> 6"
  shows "\<forall>g\<in>set (find_groups_with_dont_cares mt dc nv). group_ok mt nv g"
proof -
  obtain rm av gs where
    post: "pair_post mt nv (rm, av, gs)" and
    eq: "find_groups_with_dont_cares mt dc nv =
       gs @ map (single_implicant nv) (filter (bit rm) [0..<2 ^ nv])"
    using find_groups_structure[OF assms] by metis
  have nv8: "nv \<le> 8" using assms(3) by simp
  from post have gok: "\<forall>g\<in>set gs. group_ok mt nv g"
    and sub: "\<forall>i. bit rm i \<longrightarrow> bit mt i \<and> i < 2 ^ nv"
    unfolding pair_post_def by auto
  have "\<forall>c\<in>set (filter (bit rm) [0..<2 ^ nv]). group_ok mt nv (single_implicant nv c)"
    using sub single_group_ok[OF _ _ nv8] by auto
  then show ?thesis unfolding eq using gok by auto
qed

lemma engine_coverage:
  assumes "(mt OR dc) AND NOT (mask (2 ^ nv)) = 0" "1 \<le> nv" "nv \<le> 6"
  shows "covered_union (find_groups_with_dont_cares mt dc nv) = mt"
proof -
  obtain rm av gs where
    post: "pair_post mt nv (rm, av, gs)" and
    eq: "find_groups_with_dont_cares mt dc nv =
       gs @ map (single_implicant nv) (filter (bit rm) [0..<2 ^ nv])"
    using find_groups_structure[OF assms] by metis
  from post have cov: "covered_union gs OR rm = mt"
    and sub: "\<forall>i. bit rm i \<longrightarrow> bit mt i \<and> i < 2 ^ nv"
    unfolding pair_post_def by auto
  show ?thesis
  proof (rule bit_word_eqI)
    fix i assume i: "i < LENGTH(64)"
    have m: "bit mt i \<longleftrightarrow> bit (covered_union gs) i \<or> bit rm i"
      using cov by (metis bit_or_iff)
    have "(\<exists>c\<in>set (filter (bit rm) [0..<2 ^ nv]). bit (push_bit c 1 :: u64) i) \<longleftrightarrow> bit rm i"
      using sub i by (auto simp add: bit_exp_iff)
    then have "(\<exists>g\<in>set (map (single_implicant nv) (filter (bit rm) [0..<2 ^ nv])).
                 bit (covered_minterms g) i) \<longleftrightarrow> bit rm i"
      by (simp add: single_implicant_def del: push_bit_of_1)
    then show "bit (covered_union (find_groups_with_dont_cares mt dc nv)) i = bit mt i"
      unfolding eq bit_covered_union m by auto
  qed
qed

section \<open>The redundancy reducer\<close>

lemma redundant_scan_iff:
  "redundant_scan imps i j0 \<longleftrightarrow>
     (\<exists>j. j0 \<le> j \<and> j < length imps \<and> j \<noteq> i \<and> isize (imps ! j) \<noteq> 0 \<and>
        covered_minterms (imps ! i) AND covered_minterms (imps ! j) = covered_minterms (imps ! i) \<and>
        isize (imps ! j) > isize (imps ! i))"
proof (induction imps i j0 rule: redundant_scan.induct)
  case (1 imps i j)
  let ?D = "\<lambda>j. j < length imps \<and> j \<noteq> i \<and> isize (imps ! j) \<noteq> 0 \<and>
        covered_minterms (imps ! i) AND covered_minterms (imps ! j) = covered_minterms (imps ! i) \<and>
        isize (imps ! j) > isize (imps ! i)"
  show ?case
  proof (cases "j < length imps")
    case False
    then show ?thesis by (subst redundant_scan.simps) auto
  next
    case True
    have split: "(\<exists>j'. j \<le> j' \<and> ?D j') \<longleftrightarrow> ?D j \<or> (\<exists>j'. j + 1 \<le> j' \<and> ?D j')"
    proof
      assume "\<exists>j'. j \<le> j' \<and> ?D j'"
      then obtain j' where j': "j \<le> j'" "?D j'" by blast
      show "?D j \<or> (\<exists>j'. j + 1 \<le> j' \<and> ?D j')"
      proof (cases "j' = j")
        case True
        then show ?thesis using j'(2) by blast
      next
        case False
        then have "j + 1 \<le> j'" using j'(1) by simp
        then show ?thesis using j'(2) by blast
      qed
    next
      assume "?D j \<or> (\<exists>j'. j + 1 \<le> j' \<and> ?D j')"
      then show "\<exists>j'. j \<le> j' \<and> ?D j'"
      proof
        assume "?D j" then show ?thesis by blast
      next
        assume "\<exists>j'. j + 1 \<le> j' \<and> ?D j'"
        then obtain j' where "j + 1 \<le> j'" "?D j'" by blast
        then have "j \<le> j'" by simp
        then show ?thesis using \<open>?D j'\<close> by blast
      qed
    qed
    show ?thesis
    proof (cases "i = j \<or> isize (imps ! j) = 0")
      case c: True
      then have "redundant_scan imps i j = redundant_scan imps i (j + 1)"
        using True by (subst redundant_scan.simps) simp
      also have "\<dots> \<longleftrightarrow> (\<exists>j'. j + 1 \<le> j' \<and> ?D j')"
        using "1.IH"(1)[OF True c] by simp
      also have "\<dots> \<longleftrightarrow> (\<exists>j'. j \<le> j' \<and> ?D j')"
        using split c by auto
      finally show ?thesis by simp
    next
      case c: False
      show ?thesis
      proof (cases "?D j")
        case d: True
        then have "redundant_scan imps i j"
          using True c by (subst redundant_scan.simps) (simp add: Let_def)
        then show ?thesis using d by auto
      next
        case d: False
        then have nd: "\<not> (covered_minterms (imps ! i) AND covered_minterms (imps ! j) = covered_minterms (imps ! i)
            \<and> isize (imps ! j) > isize (imps ! i))"
          using True c by auto
        have "redundant_scan imps i j = redundant_scan imps i (j + 1)"
          using True c nd by (subst redundant_scan.simps) (auto simp add: Let_def)
        also have "\<dots> \<longleftrightarrow> (\<exists>j'. j + 1 \<le> j' \<and> ?D j')"
          using "1.IH"(2)[OF True c refl refl nd] by simp
        also have "\<dots> \<longleftrightarrow> (\<exists>j'. j \<le> j' \<and> ?D j')"
          using split d by auto
        finally show ?thesis by simp
      qed
    qed
  qed
qed

lemma redundant_scan_dominated: "redundant_scan imps i 0 = dominated imps i"
  unfolding redundant_scan_iff dominated_def by auto

lemma undominated_dominator:
  assumes "dominated xs i"
  shows "\<exists>j<length xs. j \<noteq> i \<and> isize (xs ! j) \<noteq> 0 \<and>
      covered_minterms (xs ! i) AND covered_minterms (xs ! j) = covered_minterms (xs ! i) \<and>
      isize (xs ! j) > isize (xs ! i) \<and> \<not> dominated xs j"
proof -
  let ?P = "\<lambda>j. j < length xs \<and> j \<noteq> i \<and> isize (xs ! j) \<noteq> 0 \<and>
      covered_minterms (xs ! i) AND covered_minterms (xs ! j) = covered_minterms (xs ! i) \<and>
      isize (xs ! j) > isize (xs ! i)"
  obtain j0 where j0: "?P j0" using assms unfolding dominated_def by blast
  have bound: "\<forall>y. ?P y \<longrightarrow> isize (xs ! y) < Suc (sum_list (map isize xs))"
  proof (intro allI impI)
    fix y assume "?P y"
    then have "map isize xs ! y \<le> sum_list (map isize xs)"
      by (intro elem_le_sum_list) simp
    then have "isize (xs ! y) \<le> sum_list (map isize xs)" using \<open>?P y\<close> by simp
    then show "isize (xs ! y) < Suc (sum_list (map isize xs))" by simp
  qed
  obtain j where j: "?P j" and mx: "\<forall>y. ?P y \<longrightarrow> isize (xs ! y) \<le> isize (xs ! j)"
    using ex_has_greatest_nat[of ?P j0 "\<lambda>j. isize (xs ! j)", OF j0 bound] by blast
  have "\<not> dominated xs j"
  proof
    assume "dominated xs j"
    then obtain j2 where j2: "j2 < length xs" "j2 \<noteq> j" "isize (xs ! j2) \<noteq> 0"
        "covered_minterms (xs ! j) AND covered_minterms (xs ! j2) = covered_minterms (xs ! j)"
        "isize (xs ! j2) > isize (xs ! j)"
      unfolding dominated_def by blast
    have "covered_minterms (xs ! i) AND covered_minterms (xs ! j2) = covered_minterms (xs ! i)"
      using j j2(4) by (metis and.assoc)
    moreover have "isize (xs ! j2) > isize (xs ! i)" "j2 \<noteq> i" using j j2(5) by auto
    ultimately have "?P j2" using j2 by simp
    then have "isize (xs ! j2) \<le> isize (xs ! j)" using mx by blast
    then show False using j2(5) by simp
  qed
  then show ?thesis using j by blast
qed

lemma length_marked [simp]: "length (marked xs k) = length xs"
  by (simp add: marked_def)

lemma nth_marked:
  "i < length xs \<Longrightarrow> marked xs k ! i =
     (if i < k \<and> isize (xs ! i) \<noteq> 0 \<and> dominated xs i then (xs ! i)\<lparr>isize := 0\<rparr> else xs ! i)"
  by (simp add: marked_def)

lemma marked_0: "marked xs 0 = xs"
  by (rule nth_equalityI) (simp_all add: nth_marked)

lemma dominated_marked:
  assumes "k < length xs"
  shows "dominated (marked xs k) k \<longleftrightarrow> dominated xs k"
proof
  assume "dominated (marked xs k) k"
  then obtain j where j: "j < length xs" "j \<noteq> k" "isize (marked xs k ! j) \<noteq> 0"
      "covered_minterms (marked xs k ! k) AND covered_minterms (marked xs k ! j) = covered_minterms (marked xs k ! k)"
      "isize (marked xs k ! j) > isize (marked xs k ! k)"
    unfolding dominated_def by auto
  have "marked xs k ! j = xs ! j" using j(1,3) by (auto simp add: nth_marked split: if_splits)
  moreover have "marked xs k ! k = xs ! k" using assms by (simp add: nth_marked)
  ultimately show "dominated xs k" using j unfolding dominated_def by auto
next
  assume "dominated xs k"
  then obtain j where j: "j < length xs" "j \<noteq> k" "isize (xs ! j) \<noteq> 0"
      "covered_minterms (xs ! k) AND covered_minterms (xs ! j) = covered_minterms (xs ! k)"
      "isize (xs ! j) > isize (xs ! k)" "\<not> dominated xs j"
    using undominated_dominator by blast
  have "marked xs k ! j = xs ! j" using j(1,6) by (simp add: nth_marked)
  moreover have "marked xs k ! k = xs ! k" using assms by (simp add: nth_marked)
  ultimately show "dominated (marked xs k) k" using j unfolding dominated_def by auto
qed

lemma marked_Suc:
  assumes "k < length xs"
  shows "marked xs (Suc k) =
     (if isize (xs ! k) \<noteq> 0 \<and> dominated xs k
      then (marked xs k)[k := (marked xs k ! k)\<lparr>isize := 0\<rparr>] else marked xs k)"
proof (rule nth_equalityI)
  show "length (marked xs (Suc k)) = length (if isize (xs ! k) \<noteq> 0 \<and> dominated xs k
      then (marked xs k)[k := (marked xs k ! k)\<lparr>isize := 0\<rparr>] else marked xs k)"
    by simp
next
  fix i assume "i < length (marked xs (Suc k))"
  then have i: "i < length xs" by simp
  show "marked xs (Suc k) ! i = (if isize (xs ! k) \<noteq> 0 \<and> dominated xs k
      then (marked xs k)[k := (marked xs k ! k)\<lparr>isize := 0\<rparr>] else marked xs k) ! i"
    using i assms by (cases "i = k") (auto simp add: nth_marked nth_list_update less_Suc_eq)
qed

lemma mark_redundant_marked:
  assumes "k \<le> length xs"
  shows "mark_redundant (marked xs k) k = marked xs (length xs)"
  using assms
proof (induction "length xs - k" arbitrary: k)
  case 0
  then have "k = length xs" by simp
  then show ?case by (subst mark_redundant.simps) simp
next
  case (Suc n)
  then have k: "k < length xs" by simp
  have n: "n = length xs - Suc k" using Suc.hyps(2) by simp
  have IH: "mark_redundant (marked xs (Suc k)) (Suc k) = marked xs (length xs)"
    using Suc.hyps(1)[OF n] k by simp
  have cur: "isize (marked xs k ! k) = isize (xs ! k)" using k by (simp add: nth_marked)
  show ?case
  proof (cases "isize (xs ! k) = 0")
    case True
    then have "marked xs (Suc k) = marked xs k" using marked_Suc[OF k] by simp
    then show ?thesis using IH k True cur
      by (subst mark_redundant.simps) simp
  next
    case False
    show ?thesis
    proof (cases "dominated xs k")
      case True
      then have "marked xs (Suc k) = (marked xs k)[k := (marked xs k ! k)\<lparr>isize := 0\<rparr>]"
        using marked_Suc[OF k] False by simp
      then show ?thesis using IH k False cur True dominated_marked[OF k]
        by (subst mark_redundant.simps) (simp add: redundant_scan_dominated)
    next
      case nd: False
      then have "marked xs (Suc k) = marked xs k" using marked_Suc[OF k] by simp
      then show ?thesis using IH k False cur nd dominated_marked[OF k]
        by (subst mark_redundant.simps) (simp add: redundant_scan_dominated)
    qed
  qed
qed

lemma mark_redundant_eq: "mark_redundant xs 0 = marked xs (length xs)"
  using mark_redundant_marked[of 0 xs] by (simp add: marked_0)

lemma compact_take:
  assumes "w \<le> r" "r \<le> length arr" "compact arr w r = (arr', w')"
  shows "take w' arr' = take w arr @ filter (\<lambda>x. isize x > 0) (drop r arr)"
  using assms
proof (induction arr w r rule: compact.induct)
  case (1 imps write_pos read_pos)
  show ?case
  proof (cases "read_pos < length imps")
    case False
    then have "compact imps write_pos read_pos = (imps, write_pos)"
      by (subst compact.simps) simp
    then show ?thesis using "1.prems" False by simp
  next
    case True
    have dr: "drop read_pos imps = imps ! read_pos # drop (Suc read_pos) imps"
      using True by (simp add: Cons_nth_drop_Suc)
    show ?thesis
    proof (cases "isize (imps ! read_pos) > 0")
      case pos: True
      let ?arr = "if write_pos \<noteq> read_pos then imps[write_pos := imps ! read_pos] else imps"
      have c: "compact ?arr (write_pos + 1) (read_pos + 1) = (arr', w')"
        using "1.prems"(3) True pos by (subst (asm) compact.simps) simp
      have wl: "write_pos < length imps" using "1.prems"(1) True by simp
      have tk: "take (write_pos + 1) ?arr = take write_pos imps @ [imps ! read_pos]"
        using wl by (auto simp add: take_Suc_conv_app_nth)
      have dp: "drop (read_pos + 1) ?arr = drop (Suc read_pos) imps"
        using "1.prems"(1) by auto
      have "take w' arr' = take (write_pos + 1) ?arr @ filter (\<lambda>x. isize x > 0) (drop (read_pos + 1) ?arr)"
        using "1.IH"(1)[OF True pos _ _ c] "1.prems"(1) True by simp
      then show ?thesis unfolding tk dp using pos by (subst dr) simp
    next
      case npos: False
      have c: "compact imps write_pos (read_pos + 1) = (arr', w')"
        using "1.prems"(3) True npos by (subst (asm) compact.simps) simp
      have "take w' arr' = take write_pos imps @ filter (\<lambda>x. isize x > 0) (drop (read_pos + 1) imps)"
        using "1.IH"(2)[OF True npos _ _ c] "1.prems"(1) True by simp
      then show ?thesis using npos by (subst dr) simp
    qed
  qed
qed

lemma remove_redundant_filter:
  "remove_redundant_implicants xs = filter (\<lambda>x. isize x > 0) (marked xs (length xs))"
proof -
  obtain arr w where c: "compact (mark_redundant xs 0) 0 0 = (arr, w)"
    by (cases "compact (mark_redundant xs 0) 0 0") auto
  have "take w arr = filter (\<lambda>x. isize x > 0) (mark_redundant xs 0)"
    using compact_take[OF _ _ c] by simp
  then show ?thesis
    unfolding remove_redundant_implicants_def c by (simp add: mark_redundant_eq)
qed

lemma remove_redundant_survivors:
  "remove_redundant_implicants xs =
     map (nth xs) (filter (\<lambda>i. isize (xs ! i) \<noteq> 0 \<and> \<not> dominated xs i) [0..<length xs])"
proof -
  let ?f = "\<lambda>i. if i < length xs \<and> isize (xs ! i) \<noteq> 0 \<and> dominated xs i
              then (xs ! i)\<lparr>isize := 0\<rparr> else xs ! i"
  have "filter (\<lambda>x. isize x > 0) (map ?f [0..<length xs])
      = map ?f (filter (\<lambda>i. isize (?f i) > 0) [0..<length xs])"
    by (simp add: filter_map comp_def)
  also have "filter (\<lambda>i. isize (?f i) > 0) [0..<length xs]
      = filter (\<lambda>i. isize (xs ! i) \<noteq> 0 \<and> \<not> dominated xs i) [0..<length xs]"
    by (rule filter_cong) auto
  also have "map ?f (filter (\<lambda>i. isize (xs ! i) \<noteq> 0 \<and> \<not> dominated xs i) [0..<length xs])
      = map (nth xs) (filter (\<lambda>i. isize (xs ! i) \<noteq> 0 \<and> \<not> dominated xs i) [0..<length xs])"
    by (rule map_cong) auto
  finally show ?thesis
    unfolding remove_redundant_filter marked_def by simp
qed

lemma remove_redundant_subset: "set (remove_redundant_implicants xs) \<subseteq> set xs"
  unfolding remove_redundant_survivors by auto

lemma reducer_preserves_union:
  assumes "\<forall>x\<in>set xs. isize x \<noteq> 0"
  shows "covered_union (remove_redundant_implicants xs) = covered_union xs"
proof (rule bit_word_eqI)
  fix m assume "m < LENGTH(64)"
  have "(\<exists>g\<in>set xs. bit (covered_minterms g) m) \<Longrightarrow>
        (\<exists>g\<in>set (remove_redundant_implicants xs). bit (covered_minterms g) m)"
  proof -
    assume "\<exists>g\<in>set xs. bit (covered_minterms g) m"
    then obtain i where i: "i < length xs" "bit (covered_minterms (xs ! i)) m"
      by (auto simp add: in_set_conv_nth)
    have sz: "\<And>j. j < length xs \<Longrightarrow> isize (xs ! j) \<noteq> 0" using assms by simp
    have "\<exists>j<length xs. \<not> dominated xs j \<and> bit (covered_minterms (xs ! j)) m"
    proof (cases "dominated xs i")
      case False
      then show ?thesis using i by blast
    next
      case True
      then obtain j where j: "j < length xs"
        "covered_minterms (xs ! i) AND covered_minterms (xs ! j) = covered_minterms (xs ! i)"
        "\<not> dominated xs j"
        using undominated_dominator by blast
      have "bit (covered_minterms (xs ! i) AND covered_minterms (xs ! j)) m"
        using i(2) j(2) by simp
      then have "bit (covered_minterms (xs ! j)) m" by (simp add: bit_and_iff)
      then show ?thesis using j by blast
    qed
    then obtain j where j: "j < length xs" "\<not> dominated xs j" "bit (covered_minterms (xs ! j)) m"
      by blast
    then have "xs ! j \<in> set (remove_redundant_implicants xs)"
      unfolding remove_redundant_survivors using sz by auto
    then show ?thesis using j(3) by blast
  qed
  then show "bit (covered_union (remove_redundant_implicants xs)) m = bit (covered_union xs) m"
    unfolding bit_covered_union using remove_redundant_subset[of xs] by blast
qed

section \<open>Validation and the paths of find_prime_implicants\<close>

lemma tt_invariants_domain:
  assumes "tt_invariants tt"
  shows "(minterms tt OR dont_cares tt) AND NOT (mask (2 ^ num_vars tt)) = 0"
    "1 \<le> num_vars tt" "num_vars tt \<le> 6"
  using assms unfolding tt_invariants_def by auto

lemma shl64_small: "n \<le> 5 \<Longrightarrow> shl64 1 (2 ^ n) = Returns (2 ^ (2 ^ n))"
proof -
  assume "n \<le> 5"
  then have "(2::nat) ^ n \<le> 2 ^ 5" by (intro power_increasing) auto
  then show ?thesis by (simp add: shl64_def)
qed

lemma validate_small:
  assumes "num_vars tt \<le> 5"
  shows "validate_truth_table (Some tt) = Returns (tt_invariants tt)"
proof (cases "num_vars tt < 2")
  case True
  then show ?thesis by (simp add: validate_truth_table_def tt_invariants_def)
next
  case False
  then show ?thesis
    using assms shl64_small[OF assms]
    by (auto simp add: validate_truth_table_def tt_invariants_def MAX_VARIABLES_def Let_def
        mask_eq_exp_minus_1)
qed

lemma validate_six:
  assumes "num_vars tt = 6"
  shows "validate_truth_table (Some tt) = Undefined_Shift"
  using assms by (simp add: validate_truth_table_def MAX_VARIABLES_def shl64_def)

lemma validate_large:
  assumes "6 < num_vars tt"
  shows "validate_truth_table (Some tt) = Returns False"
  using assms by (simp add: validate_truth_table_def MAX_VARIABLES_def)

lemma validate_True_iff:
  "validate_truth_table (Some tt) = Returns True \<longleftrightarrow> tt_invariants tt \<and> num_vars tt \<le> 5"
proof (cases "num_vars tt \<le> 5")
  case True
  then show ?thesis using validate_small[OF True] by simp
next
  case False
  then have "num_vars tt = 6 \<or> 6 < num_vars tt" by auto
  then show ?thesis using False validate_six[of tt] validate_large[of tt] by auto
qed

lemma find_prime_implicants_success:
  assumes "find_prime_implicants (Some tt) (Some s) = Returns (0, Some sol)"
  shows "tt_invariants tt \<and> num_vars tt \<le> 5 \<and>
    (if minterm_count tt = 0 then sol = zero_solution
     else if minterm_count tt = 1 then
       implicants sol = [\<lparr>covered_minterms = push_bit (ctz (minterms tt)) 1,
                          literal_mask = 2 ^ num_vars tt - 1,
                          literal_values = of_nat (ctz (minterms tt)), isize = 1\<rparr>]
     else implicants sol = remove_redundant_implicants
            (find_groups_with_dont_cares (minterms tt) (dont_cares tt) (num_vars tt)))"
proof (cases "validate_truth_table (Some tt)")
  case Undefined_Shift
  then show ?thesis using assms by (simp add: find_prime_implicants_def)
next
  case (Returns b)
  show ?thesis
  proof (cases b)
    case False
    then show ?thesis using assms Returns by (simp add: find_prime_implicants_def)
  next
    case True
    then have inv: "tt_invariants tt \<and> num_vars tt \<le> 5"
      using Returns validate_True_iff by simp
    show ?thesis
      using assms Returns True inv
      by (auto simp add: find_prime_implicants_def Let_def zero_solution_def split: if_splits)
  qed
qed

lemma popcount_domain:
  assumes "\<forall>i. bit w i \<longrightarrow> i < n" "n \<le> 64"
  shows "popcount w = length (filter (bit w) [0..<n])"
proof -
  have split: "[0..<64] = [0..<n] @ [n..<64]"
    using upt_add_eq_append[of 0 n "64 - n"] assms(2) by simp
  have "filter (bit w) [n..<64] = []"
    using assms(1) by (auto simp add: filter_empty_conv simp del: upt_rec_numeral)
  then show ?thesis unfolding popcount_def split by simp
qed

lemma bit_ctz:
  assumes "w \<noteq> 0"
  shows "bit w (ctz w)"
proof -
  have "\<exists>i. bit w i"
  proof (rule ccontr)
    assume "\<nexists>i. bit w i"
    then have "w = 0" by (intro bit_word_eqI) simp
    then show False using assms by simp
  qed
  then obtain i where i: "bit w i" by blast
  then have i64: "i < 64" using bit_imp_le_length[of w i] by simp
  then have "i \<in> set [0..<64]" by (simp del: upt_rec_numeral)
  then have ex: "\<not> (\<forall>x\<in>set [0..<64]. \<not> bit w x)" using i by blast
  let ?t = "takeWhile (\<lambda>i. \<not> bit w i) [0..<64]"
  have "length ?t \<noteq> length [0..<64]"
  proof
    assume "length ?t = length [0..<64]"
    then have e: "take (length ?t) [0..<64] = take (length [0..<64]) [0..<64]"
      by (simp only:)
    have "?t = take (length ?t) [0..<64]" by (rule takeWhile_eq_take)
    also have "\<dots> = take (length [0..<64]) [0..<64]" by (rule e)
    also have "\<dots> = [0..<64]" by (rule take_all) (rule order_refl)
    finally have "?t = [0..<64]" .
    then show False using ex unfolding takeWhile_eq_all_conv by blast
  qed
  moreover have "length ?t \<le> length [0..<64]" by (rule length_takeWhile_le)
  ultimately have lt: "length ?t < length [0..<64]" by linarith
  then have "\<not> (\<not> bit w ([0..<64] ! length ?t))"
    by (rule nth_length_takeWhile)
  moreover have "[0..<64] ! length ?t = ctz w"
    using lt unfolding ctz_def by (simp del: upt_rec_numeral)
  ultimately show ?thesis by simp
qed

lemma popcount_1_ctz:
  assumes "popcount w = 1"
  shows "push_bit (ctz w) 1 = w"
proof -
  have "w \<noteq> 0" using assms popcount_eq_0_iff[of w] by auto
  then have b: "bit w (ctz w)" by (rule bit_ctz)
  then have c64: "ctz w < 64" using bit_imp_le_length[of w "ctz w"] by simp
  obtain i where f: "filter (bit w) [0..<64] = [i]"
    using assms unfolding popcount_def by (auto simp add: length_Suc_conv simp del: upt_rec_numeral)
  have only: "j = i" if "bit w j" for j
  proof -
    have "j < 64" using that bit_imp_le_length[of w j] by simp
    then have "j \<in> set (filter (bit w) [0..<64])" using that by (simp del: upt_rec_numeral)
    then show ?thesis unfolding f by simp
  qed
  have ci: "ctz w = i" using only[OF b] .
  show ?thesis
  proof (rule bit_word_eqI)
    fix j assume "j < LENGTH(64)"
    show "bit (push_bit (ctz w) 1 :: u64) j = bit w j"
      using only[of j] b c64 ci by (auto simp add: bit_exp_iff)
  qed
qed

lemma shortcut_group_ok:
  assumes "tt_invariants tt" "minterm_count tt = 1"
  shows "group_ok (minterms tt) (num_vars tt)
     \<lparr>covered_minterms = push_bit (ctz (minterms tt)) 1, literal_mask = 2 ^ num_vars tt - 1,
      literal_values = of_nat (ctz (minterms tt)), isize = 1\<rparr>"
proof -
  have "popcount (minterms tt) = 1" using assms unfolding tt_invariants_def by simp
  then have "minterms tt \<noteq> 0" using popcount_eq_0_iff[of "minterms tt"] by auto
  then have b: "bit (minterms tt) (ctz (minterms tt))" by (rule bit_ctz)
  have "bit (minterms tt OR dont_cares tt) (ctz (minterms tt))" using b by (simp add: bit_or_iff)
  then have lt: "ctz (minterms tt) < 2 ^ num_vars tt"
    using bit_domain_mask[OF tt_invariants_domain(1)[OF assms(1)]] by blast
  have "num_vars tt \<le> 8" using tt_invariants_domain(3)[OF assms(1)] by simp
  from single_group_ok[OF b lt this] show ?thesis by (simp add: single_implicant_def)
qed

section \<open>The loops of generate_sop_expression and the expression as text\<close>

lemma literal_text_nonempty: "literal_text imp var \<noteq> []"
  by (simp add: literal_text_def)

lemma length_literal_text: "1 \<le> length (literal_text imp var)"
  by (simp add: literal_text_def)

lemma gen_literals_success:
  assumes "gen_literals imp nv len var first out = Inr (f', out')"
  shows "out' = out @ literals_from imp first
                  (filter (\<lambda>v. literal_mask imp AND push_bit v 1 \<noteq> 0) [var..<nv]) \<and>
         f' = (first \<and> filter (\<lambda>v. literal_mask imp AND push_bit v 1 \<noteq> 0) [var..<nv] = []) \<and>
         (filter (\<lambda>v. literal_mask imp AND push_bit v 1 \<noteq> 0) [var..<nv] \<noteq> []
            \<longrightarrow> int (length out') + 2 \<le> len)"
  using assms
proof (induction imp nv len var first out rule: gen_literals.induct)
  case (1 imp nv output_len var first_literal out)
  let ?m = "\<lambda>v. literal_mask imp AND push_bit v 1 \<noteq> 0"
  show ?case
  proof (cases "var < nv")
    case False
    then have "gen_literals imp nv output_len var first_literal out = Inr (first_literal, out)"
      by (subst gen_literals.simps) simp
    then show ?thesis using "1.prems" False by simp
  next
    case True
    then have upt: "[var..<nv] = var # [var + 1..<nv]" by (simp add: upt_conv_Cons)
    show ?thesis
    proof (cases "?m var")
      case False
      then have "gen_literals imp nv output_len (var + 1) first_literal out = Inr (f', out')"
        using "1.prems" True by (subst (asm) gen_literals.simps) simp
      then have "out' = out @ literals_from imp first_literal (filter ?m [var + 1..<nv]) \<and>
         f' = (first_literal \<and> filter ?m [var + 1..<nv] = []) \<and>
         (filter ?m [var + 1..<nv] \<noteq> [] \<longrightarrow> int (length out') + 2 \<le> output_len)"
        by (rule "1.IH"(2)[OF True False])
      moreover have "filter ?m [var..<nv] = filter ?m [var + 1..<nv]"
        unfolding upt using False by simp
      ultimately show ?thesis by metis
    next
      case m: True
      define out1 where "out1 = (if \<not> first_literal then out @ ''&'' else out)"
      define out2 where "out2 = (if literal_values imp AND push_bit var 1 = 0 then out1 @ ''~'' else out1)"
      have c1: "\<not> (\<not> first_literal \<and> int (length out) + 1 \<ge> output_len)"
        using "1.prems" True m by (subst (asm) gen_literals.simps) (auto split: if_splits)
      have c2: "\<not> (literal_values imp AND push_bit var 1 = 0 \<and> int (length out1) + 2 \<ge> output_len)"
        using "1.prems" True m c1 unfolding out1_def
        by (subst (asm) gen_literals.simps) (auto simp add: Let_def split: if_splits)
      have c3: "\<not> int (length out2) + 2 \<ge> output_len"
        using "1.prems" True m c1 c2 unfolding out1_def out2_def
        by (subst (asm) gen_literals.simps) (auto simp add: Let_def split: if_splits)
      have rec: "gen_literals imp nv output_len (var + 1) False (out2 @ [var_names ! var]) = Inr (f', out')"
        using "1.prems" True m c1 c2 c3 unfolding out1_def out2_def
        by (subst (asm) gen_literals.simps) (auto simp add: Let_def split: if_splits)
      have IH: "out' = (out2 @ [var_names ! var]) @ literals_from imp False (filter ?m [var + 1..<nv]) \<and>
         f' = (False \<and> filter ?m [var + 1..<nv] = []) \<and>
         (filter ?m [var + 1..<nv] \<noteq> [] \<longrightarrow> int (length out') + 2 \<le> output_len)"
        by (rule "1.IH"(1)[OF True m c1 out1_def c2 out2_def c3 rec])
      have tx: "out2 @ [var_names ! var] = out @ (if first_literal then [] else ''&'') @ literal_text imp var"
        unfolding out2_def out1_def literal_text_def by simp
      have bound: "int (length out') + 2 \<le> output_len"
      proof (cases "filter ?m [var + 1..<nv] = []")
        case True
        then have "out' = out2 @ [var_names ! var]" using IH by simp
        then show ?thesis using c3 by simp
      next
        case False
        then show ?thesis using IH by blast
      qed
      have fl: "filter ?m [var..<nv] = var # filter ?m [var + 1..<nv]"
        unfolding upt using m by simp
      have o: "out' = out @ literals_from imp first_literal (filter ?m [var..<nv])"
        unfolding fl using IH tx by simp
      have f: "f' = (first_literal \<and> filter ?m [var..<nv] = [])"
        unfolding fl using IH by simp
      show ?thesis using o f bound by blast
    qed
  qed
qed

lemma gen_literals_failure:
  assumes "gen_literals imp nv len var first out = Inl e"
  shows "\<exists>p s. e = out @ p \<and> s \<noteq> [] \<and>
           literals_from imp first
             (filter (\<lambda>v. literal_mask imp AND push_bit v 1 \<noteq> 0) [var..<nv]) = p @ s \<and>
           len < int (length out + length (p @ s)) + 2"
  using assms
proof (induction imp nv len var first out rule: gen_literals.induct)
  case (1 imp nv output_len var first_literal out)
  let ?m = "\<lambda>v. literal_mask imp AND push_bit v 1 \<noteq> 0"
  show ?case
  proof (cases "var < nv")
    case False
    then have "gen_literals imp nv output_len var first_literal out = Inr (first_literal, out)"
      by (subst gen_literals.simps) simp
    then show ?thesis using "1.prems" by simp
  next
    case True
    then have upt: "[var..<nv] = var # [var + 1..<nv]" by (simp add: upt_conv_Cons)
    show ?thesis
    proof (cases "?m var")
      case False
      then have "gen_literals imp nv output_len (var + 1) first_literal out = Inl e"
        using "1.prems" True by (subst (asm) gen_literals.simps) simp
      then have "\<exists>p s. e = out @ p \<and> s \<noteq> [] \<and>
           literals_from imp first_literal (filter ?m [var + 1..<nv]) = p @ s \<and>
           output_len < int (length out + length (p @ s)) + 2"
        by (rule "1.IH"(2)[OF True False])
      moreover have "filter ?m [var..<nv] = filter ?m [var + 1..<nv]"
        unfolding upt using False by simp
      ultimately show ?thesis by metis
    next
      case m: True
      define out1 where "out1 = (if \<not> first_literal then out @ ''&'' else out)"
      define out2 where "out2 = (if literal_values imp AND push_bit var 1 = 0 then out1 @ ''~'' else out1)"
      define rest where "rest = literals_from imp False (filter ?m [var + 1..<nv])"
      have fl: "filter ?m [var..<nv] = var # filter ?m [var + 1..<nv]"
        unfolding upt using m by simp
      have whole: "literals_from imp first_literal (filter ?m [var..<nv])
          = (if first_literal then [] else ''&'') @ literal_text imp var @ rest"
        unfolding fl rest_def by simp
      have o2: "out2 @ [var_names ! var] = out @ (if first_literal then [] else ''&'') @ literal_text imp var"
        unfolding out2_def out1_def literal_text_def by simp
      show ?thesis
      proof (cases "\<not> first_literal \<and> int (length out) + 1 \<ge> output_len")
        case c1: True
        then have "e = out"
          using "1.prems" True m by (subst (asm) gen_literals.simps) simp
        moreover have "2 \<le> length (''&'' @ literal_text imp var @ rest)"
          using length_literal_text[of imp var] by simp
        ultimately show ?thesis
          unfolding whole using c1
          by (intro exI[of _ "[]"] exI[of _ "''&'' @ literal_text imp var @ rest"]) auto
      next
        case c1: False
        show ?thesis
        proof (cases "literal_values imp AND push_bit var 1 = 0 \<and> int (length out1) + 2 \<ge> output_len")
          case c2: True
          then have e: "e = out1"
            using "1.prems" True m c1 unfolding out1_def
            by (subst (asm) gen_literals.simps) (auto simp add: Let_def)
          have lt: "literal_text imp var = ''~'' @ [var_names ! var]"
            using c2 by (simp add: literal_text_def)
          show ?thesis
            unfolding whole e lt using c2 unfolding out1_def
            by (intro exI[of _ "if first_literal then [] else ''&''"]
                      exI[of _ "''~'' @ [var_names ! var] @ rest"]) auto
        next
          case c2: False
          show ?thesis
          proof (cases "int (length out2) + 2 \<ge> output_len")
            case c3: True
            then have e: "e = out2"
              using "1.prems" True m c1 c2 unfolding out1_def out2_def
              by (subst (asm) gen_literals.simps) (auto simp add: Let_def)
            have lt: "literal_text imp var =
                (if literal_values imp AND push_bit var 1 = 0 then ''~'' else []) @ [var_names ! var]"
              by (simp add: literal_text_def)
            show ?thesis
              unfolding whole e lt using c3 unfolding out2_def out1_def
              by (intro exI[of _ "(if first_literal then [] else ''&'') @
                          (if literal_values imp AND push_bit var 1 = 0 then ''~'' else [])"]
                        exI[of _ "[var_names ! var] @ rest"]) auto
          next
            case c3: False
            have rec: "gen_literals imp nv output_len (var + 1) False (out2 @ [var_names ! var]) = Inl e"
              using "1.prems" True m c1 c2 c3 unfolding out1_def out2_def
              by (subst (asm) gen_literals.simps) (auto simp add: Let_def split: if_splits)
            have "\<exists>p s. e = (out2 @ [var_names ! var]) @ p \<and> s \<noteq> [] \<and>
               literals_from imp False (filter ?m [var + 1..<nv]) = p @ s \<and>
               output_len < int (length (out2 @ [var_names ! var]) + length (p @ s)) + 2"
              by (rule "1.IH"(1)[OF True m c1 out1_def c2 out2_def c3 rec])
            then obtain p s where ps: "e = (out2 @ [var_names ! var]) @ p" "s \<noteq> []"
                "rest = p @ s"
                "output_len < int (length (out2 @ [var_names ! var]) + length (p @ s)) + 2"
              unfolding rest_def by blast
            show ?thesis
              unfolding whole using ps unfolding o2
              by (intro exI[of _ "(if first_literal then [] else ''&'') @ literal_text imp var @ p"]
                        exI[of _ s]) auto
          qed
        qed
      qed
    qed
  qed
qed

lemma term_text_nonempty: "1 \<le> length (term_text imp nv)"
proof -
  have "1 \<le> length (literals_from imp True (v # vs))" for v vs
    using length_literal_text[of imp v] by simp
  then show ?thesis
    unfolding term_text_def Let_def
    by (cases "filter (\<lambda>var. literal_mask imp AND push_bit var 1 \<noteq> 0) [0..<nv]") auto
qed

lemma gen_terms_step:
  assumes i: "i < length imps"
  obtains (sep) "0 < i" "output_len \<le> int (length out) + 3"
      "gen_terms imps nv output_len i out = Inl out"
  | (lits) e where "\<not> (0 < i \<and> output_len \<le> int (length out) + 3)"
      "gen_literals (imps ! i) nv output_len 0 True (if 0 < i then out @ '' + '' else out) = Inl e"
      "gen_terms imps nv output_len i out = Inl e"
  | (one) "\<not> (0 < i \<and> output_len \<le> int (length out) + 3)"
      "gen_literals (imps ! i) nv output_len 0 True (if 0 < i then out @ '' + '' else out)
         = Inr (True, if 0 < i then out @ '' + '' else out)"
      "term_text (imps ! i) nv = ''1''"
      "output_len \<le> int (length (if 0 < i then out @ '' + '' else out)) + 2"
      "gen_terms imps nv output_len i out = Inl (if 0 < i then out @ '' + '' else out)"
  | (one_ok) "\<not> (0 < i \<and> output_len \<le> int (length out) + 3)"
      "gen_literals (imps ! i) nv output_len 0 True (if 0 < i then out @ '' + '' else out)
         = Inr (True, if 0 < i then out @ '' + '' else out)"
      "term_text (imps ! i) nv = ''1''"
      "\<not> output_len \<le> int (length (if 0 < i then out @ '' + '' else out)) + 2"
      "gen_terms imps nv output_len i out =
         gen_terms imps nv output_len (i + 1) ((if 0 < i then out @ '' + '' else out) @ ''1'')"
  | (term_ok) y where "\<not> (0 < i \<and> output_len \<le> int (length out) + 3)"
      "gen_literals (imps ! i) nv output_len 0 True (if 0 < i then out @ '' + '' else out)
         = Inr (False, y)"
      "y = (if 0 < i then out @ '' + '' else out) @ term_text (imps ! i) nv"
      "int (length y) + 2 \<le> output_len"
      "gen_terms imps nv output_len i out = gen_terms imps nv output_len (i + 1) y"
proof (cases "0 < i \<and> output_len \<le> int (length out) + 3")
  case True
  then have "gen_terms imps nv output_len i out = Inl out"
    using i by (subst gen_terms.simps) simp
  then show ?thesis using True sep by blast
next
  case c0: False
  let ?out1 = "if 0 < i then out @ '' + '' else out"
  let ?vs = "filter (\<lambda>v. literal_mask (imps ! i) AND push_bit v 1 \<noteq> 0) [0..<nv]"
  show ?thesis
  proof (cases "gen_literals (imps ! i) nv output_len 0 True ?out1")
    case (Inl e)
    then have "gen_terms imps nv output_len i out = Inl e"
      using i c0 by (subst gen_terms.simps) (auto simp add: Let_def)
    then show ?thesis using c0 Inl lits by blast
  next
    case (Inr b)
    obtain fl y where b: "b = (fl, y)" by (cases b) auto
    note s = gen_literals_success[OF Inr[unfolded b]]
    show ?thesis
    proof (cases fl)
      case True
      then have vs: "?vs = []" and y: "y = ?out1" using s by auto
      have tt: "term_text (imps ! i) nv = ''1''"
        unfolding term_text_def Let_def using vs by simp
      have g: "gen_literals (imps ! i) nv output_len 0 True ?out1 = Inr (True, ?out1)"
        using Inr b True y by simp
      show ?thesis
      proof (cases "output_len \<le> int (length ?out1) + 2")
        case c: True
        have "gen_terms imps nv output_len i out = Inl ?out1"
          using i c0 g c by (subst gen_terms.simps) (auto simp add: Let_def)
        then show ?thesis using c0 g tt c one by blast
      next
        case c: False
        have "gen_terms imps nv output_len i out =
            gen_terms imps nv output_len (i + 1) (?out1 @ ''1'')"
          using i c0 g c by (subst gen_terms.simps) (auto simp add: Let_def)
        then show ?thesis using c0 g tt c one_ok by blast
      qed
    next
      case False
      then have vs: "?vs \<noteq> []" and y: "y = ?out1 @ literals_from (imps ! i) True ?vs"
        and bd: "int (length y) + 2 \<le> output_len"
        using s by auto
      have tt: "term_text (imps ! i) nv = literals_from (imps ! i) True ?vs"
        unfolding term_text_def Let_def using vs by simp
      have g: "gen_literals (imps ! i) nv output_len 0 True ?out1 = Inr (False, y)"
        using Inr b False by simp
      have "gen_terms imps nv output_len i out = gen_terms imps nv output_len (i + 1) y"
        using i c0 g by (subst gen_terms.simps) (auto simp add: Let_def)
      then show ?thesis using c0 g y tt bd term_ok[of y] by simp
    qed
  qed
qed

lemma terms_from_drop:
  assumes "i < length imps"
  shows "terms_from nv (i = 0) (drop i imps) =
     (if 0 < i then '' + '' else []) @ term_text (imps ! i) nv @ terms_from nv False (drop (i + 1) imps)"
proof -
  have "drop i imps = imps ! i # drop (i + 1) imps"
    using assms by (simp add: Cons_nth_drop_Suc)
  then show ?thesis by auto
qed

lemma gen_terms_success:
  assumes "gen_terms imps nv len i out = Inr out'"
  shows "out' = out @ terms_from nv (i = 0) (drop i imps) \<and>
         (i < length imps \<longrightarrow> int (length out') + 2 \<le> len)"
  using assms
proof (induction "length imps - i" arbitrary: i out)
  case 0
  then have "\<not> i < length imps" by simp
  then have "gen_terms imps nv len i out = Inr out" by (subst gen_terms.simps) simp
  then show ?case using "0.prems" \<open>\<not> i < length imps\<close> by simp
next
  case (Suc n)
  then have i: "i < length imps" by simp
  have n: "n = length imps - (i + 1)" using Suc.hyps(2) by simp
  let ?out1 = "if 0 < i then out @ '' + '' else out"
  note td = terms_from_drop[OF i, of nv]
  from i show ?case
  proof (cases rule: gen_terms_step[where output_len = len and out = out and nv = nv])
    case sep
    then show ?thesis using Suc.prems by simp
  next
    case (lits e)
    then show ?thesis using Suc.prems by simp
  next
    case one
    then show ?thesis using Suc.prems by simp
  next
    case one_ok
    then have r: "gen_terms imps nv len (i + 1) (?out1 @ ''1'') = Inr out'"
      using Suc.prems by simp
    have IH: "out' = (?out1 @ ''1'') @ terms_from nv (i + 1 = 0) (drop (i + 1) imps) \<and>
         (i + 1 < length imps \<longrightarrow> int (length out') + 2 \<le> len)"
      by (rule Suc.hyps(1)[OF n r])
    have o: "out' = out @ terms_from nv (i = 0) (drop i imps)"
      unfolding td using IH one_ok(3) by auto
    have b: "int (length out') + 2 \<le> len"
    proof (cases "i + 1 < length imps")
      case True
      then show ?thesis using IH by blast
    next
      case False
      then have "out' = ?out1 @ ''1''" using IH by simp
      then show ?thesis using one_ok(4) by auto
    qed
    show ?thesis using o b by blast
  next
    case (term_ok y)
    then have r: "gen_terms imps nv len (i + 1) y = Inr out'"
      using Suc.prems by simp
    have IH: "out' = y @ terms_from nv (i + 1 = 0) (drop (i + 1) imps) \<and>
         (i + 1 < length imps \<longrightarrow> int (length out') + 2 \<le> len)"
      by (rule Suc.hyps(1)[OF n r])
    have o: "out' = out @ terms_from nv (i = 0) (drop i imps)"
      unfolding td using IH term_ok(3) by auto
    have b: "int (length out') + 2 \<le> len"
    proof (cases "i + 1 < length imps")
      case True
      then show ?thesis using IH by blast
    next
      case False
      then have "out' = y" using IH by simp
      then show ?thesis using term_ok(4) by auto
    qed
    show ?thesis using o b by blast
  qed
qed

lemma gen_terms_failure:
  assumes "gen_terms imps nv len i out = Inl e"
  shows "\<exists>p s. e = out @ p \<and> s \<noteq> [] \<and>
           terms_from nv (i = 0) (drop i imps) = p @ s \<and>
           len < int (length out + length (p @ s)) + 2"
  using assms
proof (induction "length imps - i" arbitrary: i out)
  case 0
  then have "\<not> i < length imps" by simp
  then have "gen_terms imps nv len i out = Inr out" by (subst gen_terms.simps) simp
  then show ?case using "0.prems" by simp
next
  case (Suc n)
  then have i: "i < length imps" by simp
  have n: "n = length imps - (i + 1)" using Suc.hyps(2) by simp
  let ?sep = "if 0 < i then '' + '' else []"
  let ?out1 = "if 0 < i then out @ '' + '' else out"
  let ?rest = "terms_from nv False (drop (i + 1) imps)"
  have o1: "?out1 = out @ ?sep" by simp
  note td = terms_from_drop[OF i, of nv]
  note tl = term_text_nonempty[of "imps ! i" nv]
  from i show ?case
  proof (cases rule: gen_terms_step[where output_len = len and out = out and nv = nv])
    case sep
    then have e: "e = out" using Suc.prems by simp
    show ?thesis
      unfolding td e using sep(1,2) tl
      by (intro exI[of _ "[]"] exI[of _ "'' + '' @ term_text (imps ! i) nv @ ?rest"]) auto
  next
    case (lits e')
    then have e: "e = e'" using Suc.prems by simp
    obtain p s where ps: "e' = ?out1 @ p" "s \<noteq> []"
      "literals_from (imps ! i) True
         (filter (\<lambda>v. literal_mask (imps ! i) AND push_bit v 1 \<noteq> 0) [0..<nv]) = p @ s"
      "len < int (length ?out1 + length (p @ s)) + 2"
      using gen_literals_failure[OF lits(2)] by blast
    have "filter (\<lambda>v. literal_mask (imps ! i) AND push_bit v 1 \<noteq> 0) [0..<nv] \<noteq> []"
      using ps(2,3) by auto
    then have tt: "term_text (imps ! i) nv = p @ s"
      unfolding term_text_def Let_def using ps(3) by simp
    show ?thesis
      unfolding td e tt using ps(1,2,4)
      by (intro exI[of _ "?sep @ p"] exI[of _ "s @ ?rest"]) auto
  next
    case one
    then have e: "e = ?out1" using Suc.prems by simp
    show ?thesis
      unfolding td e one(3) using one(4)
      by (intro exI[of _ "?sep"] exI[of _ "''1'' @ ?rest"]) auto
  next
    case one_ok
    then have r: "gen_terms imps nv len (i + 1) (?out1 @ ''1'') = Inl e"
      using Suc.prems by simp
    have "\<exists>p s. e = (?out1 @ ''1'') @ p \<and> s \<noteq> [] \<and>
           terms_from nv (i + 1 = 0) (drop (i + 1) imps) = p @ s \<and>
           len < int (length (?out1 @ ''1'') + length (p @ s)) + 2"
      by (rule Suc.hyps(1)[OF n r])
    then obtain p s where ps: "e = (?out1 @ ''1'') @ p" "s \<noteq> []" "?rest = p @ s"
        "len < int (length (?out1 @ ''1'') + length (p @ s)) + 2"
      by auto
    show ?thesis
      unfolding td one_ok(3) using ps
      by (intro exI[of _ "?sep @ ''1'' @ p"] exI[of _ s]) auto
  next
    case (term_ok y)
    then have r: "gen_terms imps nv len (i + 1) y = Inl e"
      using Suc.prems by simp
    have "\<exists>p s. e = y @ p \<and> s \<noteq> [] \<and>
           terms_from nv (i + 1 = 0) (drop (i + 1) imps) = p @ s \<and>
           len < int (length y + length (p @ s)) + 2"
      by (rule Suc.hyps(1)[OF n r])
    then obtain p s where ps: "e = y @ p" "s \<noteq> []" "?rest = p @ s"
        "len < int (length y + length (p @ s)) + 2"
      by auto
    show ?thesis
      unfolding td using ps term_ok(3)
      by (intro exI[of _ "?sep @ term_text (imps ! i) nv @ p"] exI[of _ s]) auto
  qed
qed

lemma tokens_text_Nil [simp]: "tokens_text [] = []"
  by (simp add: tokens_text_def)

lemma tokens_text_Cons [simp]: "tokens_text (t # ts) = token_text t @ tokens_text ts"
  by (simp add: tokens_text_def)

lemma tokens_text_append [simp]: "tokens_text (xs @ ys) = tokens_text xs @ tokens_text ys"
  by (simp add: tokens_text_def)

lemma token_text_nonempty: "token_text t \<noteq> []"
  by (cases t) auto

lemma write_tokens_append:
  "write_tokens len (xs @ ys) out =
     (case write_tokens len xs out of Inl e \<Rightarrow> Inl e | Inr out' \<Rightarrow> write_tokens len ys out')"
  by (induction xs arbitrary: out) auto

lemma write_tokens_failure:
  assumes "write_tokens len ts out = Inl e"
  shows "\<exists>k<length ts. e = out @ tokens_text (take k ts) \<and>
           (\<forall>j<k. int (length (out @ tokens_text (take j ts))) + token_room (ts ! j) < len) \<and>
           \<not> int (length e) + token_room (ts ! k) < len"
  using assms
proof (induction ts arbitrary: out)
  case Nil
  then show ?case by simp
next
  case (Cons t ts)
  show ?case
  proof (cases "int (length out) + token_room t \<ge> len")
    case True
    then have "e = out" using Cons.prems by simp
    then have "0 < length (t # ts) \<and> e = out @ tokens_text (take 0 (t # ts)) \<and>
           (\<forall>j<0. int (length (out @ tokens_text (take j (t # ts)))) + token_room ((t # ts) ! j) < len) \<and>
           \<not> int (length e) + token_room ((t # ts) ! 0) < len"
      using True by simp
    then show ?thesis by blast
  next
    case False
    then have "write_tokens len ts (out @ token_text t) = Inl e" using Cons.prems by simp
    then obtain k where k: "k < length ts" "e = (out @ token_text t) @ tokens_text (take k ts)"
        "\<forall>j<k. int (length ((out @ token_text t) @ tokens_text (take j ts))) + token_room (ts ! j) < len"
        "\<not> int (length e) + token_room (ts ! k) < len"
      using Cons.IH by blast
    have all: "\<forall>j<Suc k. int (length (out @ tokens_text (take j (t # ts))))
                  + token_room ((t # ts) ! j) < len"
    proof (intro allI impI)
      fix j assume j: "j < Suc k"
      show "int (length (out @ tokens_text (take j (t # ts)))) + token_room ((t # ts) ! j) < len"
      proof (cases j)
        case 0
        then show ?thesis using False by simp
      next
        case (Suc j')
        then have "j' < k" using j by simp
        then show ?thesis using k(3) Suc by simp
      qed
    qed
    have "Suc k < length (t # ts) \<and> e = out @ tokens_text (take (Suc k) (t # ts)) \<and>
          \<not> int (length e) + token_room ((t # ts) ! Suc k) < len"
      using k by simp
    then show ?thesis using all by blast
  qed
qed

lemma write_tokens_success:
  assumes "write_tokens len ts out = Inr out'"
  shows "out' = out @ tokens_text ts \<and>
         (\<forall>j<length ts. int (length (out @ tokens_text (take j ts))) + token_room (ts ! j) < len)"
  using assms
proof (induction ts arbitrary: out)
  case Nil
  then show ?case by simp
next
  case (Cons t ts)
  have nf: "\<not> int (length out) + token_room t \<ge> len"
    using Cons.prems by (auto split: if_splits)
  then have "write_tokens len ts (out @ token_text t) = Inr out'" using Cons.prems by simp
  then have ih: "out' = (out @ token_text t) @ tokens_text ts"
    "\<forall>j<length ts. int (length ((out @ token_text t) @ tokens_text (take j ts)))
        + token_room (ts ! j) < len"
    using Cons.IH by blast+
  have "int (length (out @ tokens_text (take j (t # ts)))) + token_room ((t # ts) ! j) < len"
    if "j < length (t # ts)" for j
  proof (cases j)
    case 0
    then show ?thesis using nf by simp
  next
    case (Suc j')
    then have "j' < length ts" using that by simp
    then show ?thesis using ih(2) Suc by simp
  qed
  then show ?case using ih(1) by simp
qed

lemma literals_tokens_text:
  "tokens_text (literals_tokens imp first vars) = literals_from imp first vars"
  by (induction vars arbitrary: first) (auto simp add: literal_text_def)

lemma term_tokens_text: "tokens_text (term_tokens imp nv) = term_text imp nv"
  by (simp add: term_tokens_def term_text_def Let_def literals_tokens_text)

lemma terms_tokens_text: "tokens_text (terms_tokens nv first imps) = terms_from nv first imps"
  by (induction imps arbitrary: first) (auto simp add: term_tokens_text)

lemma sop_tokens_text: "tokens_text (sop_tokens imps nv) = sop_text imps nv"
  by (simp add: sop_tokens_def sop_text_def terms_tokens_text)

lemma gen_literals_tokens:
  "gen_literals imp nv len var first out =
     (case write_tokens len
             (literals_tokens imp first
                (filter (\<lambda>v. literal_mask imp AND push_bit v 1 \<noteq> 0) [var..<nv])) out of
        Inl e \<Rightarrow> Inl e
      | Inr out' \<Rightarrow>
          Inr (first \<and> filter (\<lambda>v. literal_mask imp AND push_bit v 1 \<noteq> 0) [var..<nv] = [], out'))"
proof (induction imp nv len var first out rule: gen_literals.induct)
  case (1 imp nv output_len var first_literal out)
  let ?m = "\<lambda>v. literal_mask imp AND push_bit v 1 \<noteq> 0"
  show ?case
  proof (cases "var < nv")
    case False
    then show ?thesis by (subst gen_literals.simps) simp
  next
    case True
    then have upt: "[var..<nv] = var # [var + 1..<nv]" by (simp add: upt_conv_Cons)
    show ?thesis
    proof (cases "?m var")
      case False
      have fl: "filter ?m [var..<nv] = filter ?m [var + 1..<nv]"
        unfolding upt using False by simp
      have "gen_literals imp nv output_len var first_literal out
          = gen_literals imp nv output_len (var + 1) first_literal out"
        using True False by (subst gen_literals.simps) simp
      then show ?thesis unfolding fl using "1.IH"(2)[OF True False] by simp
    next
      case m: True
      let ?neg = "literal_values imp AND push_bit var 1 = 0"
      let ?rest = "literals_tokens imp False (filter ?m [var + 1..<nv])"
      define out1 where "out1 = (if \<not> first_literal then out @ ''&'' else out)"
      define out2 where "out2 = (if ?neg then out1 @ ''~'' else out1)"
      have fl: "filter ?m [var..<nv] = var # filter ?m [var + 1..<nv]"
        unfolding upt using m by simp
      have toks: "literals_tokens imp first_literal (filter ?m [var..<nv]) =
          (if first_literal then [] else [And_sep]) @ (if ?neg then [Complement] else []) @
          [Variable var] @ ?rest"
        unfolding fl by simp
      show ?thesis
      proof (cases "\<not> first_literal \<and> int (length out) + 1 \<ge> output_len")
        case c1: True
        have "gen_literals imp nv output_len var first_literal out = Inl out"
          using True m c1 by (subst gen_literals.simps) simp
        moreover have "write_tokens output_len
            (literals_tokens imp first_literal (filter ?m [var..<nv])) out = Inl out"
          unfolding toks using c1 by simp
        ultimately show ?thesis by simp
      next
        case c1: False
        have w1: "write_tokens output_len
            (literals_tokens imp first_literal (filter ?m [var..<nv])) out =
            write_tokens output_len ((if ?neg then [Complement] else []) @ [Variable var] @ ?rest) out1"
          unfolding toks out1_def using c1 by auto
        show ?thesis
        proof (cases "?neg \<and> int (length out1) + 2 \<ge> output_len")
          case c2: True
          have "gen_literals imp nv output_len var first_literal out = Inl out1"
            using True m c1 c2 unfolding out1_def
            by (subst gen_literals.simps) (auto simp add: Let_def)
          moreover have "write_tokens output_len
              ((if ?neg then [Complement] else []) @ [Variable var] @ ?rest) out1 = Inl out1"
            using c2 by simp
          ultimately show ?thesis unfolding w1 by simp
        next
          case c2: False
          have w2: "write_tokens output_len
              ((if ?neg then [Complement] else []) @ [Variable var] @ ?rest) out1
              = write_tokens output_len (Variable var # ?rest) out2"
            unfolding out2_def using c2 by auto
          show ?thesis
          proof (cases "int (length out2) + 2 \<ge> output_len")
            case c3: True
            have "gen_literals imp nv output_len var first_literal out = Inl out2"
              using True m c1 c2 c3 unfolding out1_def out2_def
              by (subst gen_literals.simps) (auto simp add: Let_def)
            moreover have "write_tokens output_len (Variable var # ?rest) out2 = Inl out2"
              using c3 by simp
            ultimately show ?thesis unfolding w1 w2 by simp
          next
            case c3: False
            have g: "gen_literals imp nv output_len var first_literal out
                = gen_literals imp nv output_len (var + 1) False (out2 @ [var_names ! var])"
              using True m c1 c2 c3 unfolding out1_def out2_def
              by (subst gen_literals.simps) (auto simp add: Let_def)
            have w3: "write_tokens output_len (Variable var # ?rest) out2
                = write_tokens output_len ?rest (out2 @ [var_names ! var])"
              using c3 by simp
            have IH: "gen_literals imp nv output_len (var + 1) False (out2 @ [var_names ! var]) =
               (case write_tokens output_len ?rest (out2 @ [var_names ! var]) of
                  Inl e \<Rightarrow> Inl e
                | Inr out' \<Rightarrow> Inr (False \<and> filter ?m [var + 1..<nv] = [], out'))"
              by (rule "1.IH"(1)[OF True m c1 out1_def c2 out2_def c3])
            have lhs: "gen_literals imp nv output_len var first_literal out =
               (case write_tokens output_len ?rest (out2 @ [var_names ! var]) of
                  Inl e \<Rightarrow> Inl e | Inr out' \<Rightarrow> Inr (False, out'))"
              unfolding g IH by (simp cong: sum.case_cong)
            have rhs: "write_tokens output_len
                (literals_tokens imp first_literal (filter ?m [var..<nv])) out
                = write_tokens output_len ?rest (out2 @ [var_names ! var])"
              using w1 w2 w3 by simp
            have ne: "filter ?m [var..<nv] \<noteq> []" using fl by simp
            show ?thesis unfolding lhs rhs using ne by (simp split: sum.splits)
          qed
        qed
      qed
    qed
  qed
qed

lemma terms_tokens_drop:
  assumes "i < length imps"
  shows "terms_tokens nv (i = 0) (drop i imps) =
     (if 0 < i then [Or_sep] else []) @ term_tokens (imps ! i) nv @
       terms_tokens nv False (drop (i + 1) imps)"
proof -
  have "drop i imps = imps ! i # drop (i + 1) imps"
    using assms by (simp add: Cons_nth_drop_Suc)
  then show ?thesis by auto
qed

lemma gen_terms_tokens:
  "gen_terms imps nv len i out = write_tokens len (terms_tokens nv (i = 0) (drop i imps)) out"
proof (induction "length imps - i" arbitrary: i out)
  case 0
  then have "\<not> i < length imps" by simp
  then show ?case by (subst gen_terms.simps) simp
next
  case (Suc n)
  then have i: "i < length imps" by simp
  have n: "n = length imps - (i + 1)" using Suc.hyps(2) by simp
  note IH = Suc.hyps(1)[OF n]
  let ?vs = "filter (\<lambda>v. literal_mask (imps ! i) AND push_bit v 1 \<noteq> 0) [0..<nv]"
  let ?rest = "terms_tokens nv False (drop (i + 1) imps)"
  let ?out1 = "if 0 < i then out @ '' + '' else out"
  note td = terms_tokens_drop[OF i, of nv]
  show ?case
  proof (cases "0 < i \<and> len \<le> int (length out) + 3")
    case True
    then have "gen_terms imps nv len i out = Inl out"
      using i by (subst gen_terms.simps) simp
    moreover have "write_tokens len (terms_tokens nv (i = 0) (drop i imps)) out = Inl out"
      unfolding td using True by simp
    ultimately show ?thesis by simp
  next
    case c0: False
    have w0: "write_tokens len (terms_tokens nv (i = 0) (drop i imps)) out
        = write_tokens len (term_tokens (imps ! i) nv @ ?rest) ?out1"
      unfolding td using c0 by auto
    have gl: "gen_literals (imps ! i) nv len 0 True ?out1 =
        (case write_tokens len (literals_tokens (imps ! i) True ?vs) ?out1 of
           Inl e \<Rightarrow> Inl e | Inr out' \<Rightarrow> Inr (True \<and> ?vs = [], out'))"
      by (rule gen_literals_tokens)
    have gt: "gen_terms imps nv len i out =
        (case gen_literals (imps ! i) nv len 0 True ?out1 of
           Inl e \<Rightarrow> Inl e
         | Inr (first_literal, out2) \<Rightarrow>
             if first_literal then
               if int (length out2) + 2 \<ge> len then Inl out2
               else gen_terms imps nv len (i + 1) (out2 @ ''1'')
             else gen_terms imps nv len (i + 1) out2)"
      using i c0 by (subst gen_terms.simps) (auto simp add: Let_def)
    show ?thesis
    proof (cases "?vs = []")
      case True
      have tk: "term_tokens (imps ! i) nv = [Constant_one]"
        unfolding term_tokens_def Let_def using True by simp
      have g0: "gen_literals (imps ! i) nv len 0 True ?out1 = Inr (True, ?out1)"
        unfolding gl using True by simp
      show ?thesis
      proof (cases "int (length ?out1) + 2 \<ge> len")
        case c: True
        have "gen_terms imps nv len i out = Inl ?out1" unfolding gt g0 using c by simp
        moreover have "write_tokens len (term_tokens (imps ! i) nv @ ?rest) ?out1 = Inl ?out1"
          unfolding tk using c by simp
        ultimately show ?thesis unfolding w0 by simp
      next
        case c: False
        have "gen_terms imps nv len i out = gen_terms imps nv len (i + 1) (?out1 @ ''1'')"
          unfolding gt g0 using c by simp
        moreover have "write_tokens len (term_tokens (imps ! i) nv @ ?rest) ?out1
            = write_tokens len ?rest (?out1 @ ''1'')"
          unfolding tk using c by simp
        ultimately show ?thesis unfolding w0 using IH by simp
      qed
    next
      case False
      have tk: "term_tokens (imps ! i) nv = literals_tokens (imps ! i) True ?vs"
        unfolding term_tokens_def Let_def using False by simp
      show ?thesis
      proof (cases "write_tokens len (literals_tokens (imps ! i) True ?vs) ?out1")
        case (Inl e)
        have "gen_terms imps nv len i out = Inl e" unfolding gt gl Inl by simp
        moreover have "write_tokens len (term_tokens (imps ! i) nv @ ?rest) ?out1 = Inl e"
          unfolding tk write_tokens_append Inl by simp
        ultimately show ?thesis unfolding w0 by simp
      next
        case (Inr y)
        have "gen_terms imps nv len i out = gen_terms imps nv len (i + 1) y"
          unfolding gt gl Inr using False by simp
        moreover have "write_tokens len (term_tokens (imps ! i) nv @ ?rest) ?out1
            = write_tokens len ?rest y"
          unfolding tk write_tokens_append Inr by simp
        ultimately show ?thesis unfolding w0 using IH by simp
      qed
    qed
  qed
qed

lemma sop_tokens_first_room:
  assumes "imps \<noteq> []"
  shows "sop_tokens imps nv \<noteq> [] \<and> token_room (sop_tokens imps nv ! 0) = 2"
proof -
  obtain imp rest where ir: "imps = imp # rest" using assms by (cases imps) auto
  let ?vs = "filter (\<lambda>var. literal_mask imp AND push_bit var 1 \<noteq> 0) [0..<nv]"
  show ?thesis
  proof (cases ?vs)
    case Nil
    then have "term_tokens imp nv = [Constant_one]" by (simp add: term_tokens_def)
    then show ?thesis unfolding sop_tokens_def ir by simp
  next
    case (Cons v vs)
    then have "term_tokens imp nv = literals_tokens imp True (v # vs)"
      by (simp add: term_tokens_def)
    then show ?thesis unfolding sop_tokens_def ir by simp
  qed
qed

section \<open>Coverage of the minterms\<close>

text \<open>
  Claim C1: for every table that satisfies the invariants, the union of the covered
  minterms of the implicants that the grouping engine returns is exactly the set of
  minterms, both right after the grouping passes and after the redundancy reducer has
  run; so it is for every solution that \<open>find_prime_implicants\<close> returns with the
  code 0, whether it invoked the engine (two minterms or more) or not.
\<close>

theorem full_coverage_before_and_after_reducer:
  assumes "tt_invariants tt"
  shows "covered_union (find_groups_with_dont_cares (minterms tt) (dont_cares tt) (num_vars tt))
           = minterms tt \<and>
         covered_union (remove_redundant_implicants
            (find_groups_with_dont_cares (minterms tt) (dont_cares tt) (num_vars tt)))
           = minterms tt \<and>
         (\<forall>s sol. find_prime_implicants (Some tt) (Some s) = Returns (0, Some sol) \<longrightarrow>
            covered_union (implicants sol) = minterms tt)"
proof -
  let ?gs = "find_groups_with_dont_cares (minterms tt) (dont_cares tt) (num_vars tt)"
  note d = tt_invariants_domain[OF assms]
  have before: "covered_union ?gs = minterms tt"
    by (rule engine_coverage[OF d])
  have "\<forall>g\<in>set ?gs. isize g \<noteq> 0"
    using engine_groups_ok[OF d] unfolding group_ok_def by blast
  then have after: "covered_union (remove_redundant_implicants ?gs) = minterms tt"
    using reducer_preserves_union[of ?gs] before by simp
  have "covered_union (implicants sol) = minterms tt"
    if f: "find_prime_implicants (Some tt) (Some s) = Returns (0, Some sol)" for s sol
  proof -
    note suc = find_prime_implicants_success[OF f]
    have pc: "minterm_count tt = popcount (minterms tt)"
      using assms unfolding tt_invariants_def by simp
    show ?thesis
    proof (cases "minterm_count tt = 0")
      case True
      then have "minterms tt = 0" using pc popcount_eq_0_iff[of "minterms tt"] by simp
      then show ?thesis using suc True by (simp add: zero_solution_def covered_union_def)
    next
      case nz: False
      show ?thesis
      proof (cases "minterm_count tt = 1")
        case True
        then have "push_bit (ctz (minterms tt)) 1 = minterms tt"
          using pc popcount_1_ctz[of "minterms tt"] by simp
        then show ?thesis using suc True by (simp add: covered_union_def del: push_bit_of_1)
      next
        case False
        then show ?thesis using suc nz after by simp
      qed
    qed
  qed
  then show ?thesis using before after by blast
qed

theorem full_coverage_witness:
  "tt_invariants scenario_a \<and>
   covered_union (find_groups_with_dont_cares (minterms scenario_a) (dont_cares scenario_a)
     (num_vars scenario_a)) = minterms scenario_a \<and>
   covered_union (remove_redundant_implicants (find_groups_with_dont_cares (minterms scenario_a)
     (dont_cares scenario_a) (num_vars scenario_a))) = minterms scenario_a \<and>
   find_prime_implicants (Some scenario_a) (Some zero_solution) = Returns (0, Some scenario_a_solution) \<and>
   covered_union (implicants scenario_a_solution) = minterms scenario_a"
proof -
  have h: "tt_invariants scenario_a" by code_simp
  have f: "find_prime_implicants (Some scenario_a) (Some zero_solution) = Returns (0, Some scenario_a_solution)"
    by code_simp
  show ?thesis
    using h f full_coverage_before_and_after_reducer[OF h] by blast
qed

section \<open>Implicants as product terms\<close>

text \<open>
  Claim C2: whenever \<open>find_prime_implicants\<close> succeeds, every implicant of the returned
  solution is a faithful product term over the cells it covers: each minterm \<open>m\<close> whose
  bit is set in \<open>covered_minterms\<close> satisfies \<open>(m AND literal_mask) = literal_values\<close>.
  The same holds for what the engine and the reducer produce on any table that
  satisfies the invariants, six variables included.
\<close>

theorem implicants_are_faithful_terms:
  "(find_prime_implicants (Some tt) (Some s) = Returns (0, Some sol) \<and>
      g \<in> set (implicants sol) \<and> bit (covered_minterms g) m \<longrightarrow>
      (of_nat m :: u8) AND literal_mask g = literal_values g) \<and>
   (tt_invariants tt \<and>
      g \<in> set (remove_redundant_implicants
          (find_groups_with_dont_cares (minterms tt) (dont_cares tt) (num_vars tt))) \<and>
      bit (covered_minterms g) m \<longrightarrow>
      (of_nat m :: u8) AND literal_mask g = literal_values g)"
proof -
  let ?gs = "find_groups_with_dont_cares (minterms tt) (dont_cares tt) (num_vars tt)"
  have engine: "(of_nat m :: u8) AND literal_mask g = literal_values g"
    if "tt_invariants tt" "g \<in> set (remove_redundant_implicants ?gs)" "bit (covered_minterms g) m"
  proof -
    have "g \<in> set ?gs" using that(2) remove_redundant_subset by blast
    then have "group_ok (minterms tt) (num_vars tt) g"
      using engine_groups_ok[OF tt_invariants_domain[OF that(1)]] by blast
    then show ?thesis using that(3) unfolding group_ok_def by blast
  qed
  have api: "(of_nat m :: u8) AND literal_mask g = literal_values g"
    if f: "find_prime_implicants (Some tt) (Some s) = Returns (0, Some sol)"
      and g: "g \<in> set (implicants sol)" and b: "bit (covered_minterms g) m"
  proof -
    note suc = find_prime_implicants_success[OF f]
    then have inv: "tt_invariants tt" by simp
    show ?thesis
    proof (cases "minterm_count tt = 0")
      case True
      then show ?thesis using suc g by (simp add: zero_solution_def)
    next
      case nz: False
      show ?thesis
      proof (cases "minterm_count tt = 1")
        case True
        then have "group_ok (minterms tt) (num_vars tt) g"
          using suc g shortcut_group_ok[OF inv True] by simp
        then show ?thesis using b unfolding group_ok_def by blast
      next
        case False
        then have "g \<in> set (remove_redundant_implicants ?gs)" using suc nz g by simp
        then show ?thesis using engine[OF inv _ b] by simp
      qed
    qed
  qed
  show ?thesis using engine api by blast
qed

theorem implicants_are_faithful_terms_witness:
  "find_prime_implicants (Some scenario_a) (Some zero_solution) = Returns (0, Some scenario_a_solution) \<and>
   \<lparr>covered_minterms = 34, literal_mask = 3, literal_values = 1, isize = 2\<rparr>
     \<in> set (implicants scenario_a_solution) \<and>
   bit (34 :: u64) 5 \<and>
   (of_nat 5 :: u8) AND 3 = 1 \<and>
   tt_invariants scenario_a \<and>
   \<lparr>covered_minterms = 34, literal_mask = 3, literal_values = 1, isize = 2\<rparr>
     \<in> set (remove_redundant_implicants (find_groups_with_dont_cares (minterms scenario_a)
          (dont_cares scenario_a) (num_vars scenario_a)))"
proof -
  let ?g = "\<lparr>covered_minterms = 34, literal_mask = 3, literal_values = 1, isize = 2\<rparr>"
  have f: "find_prime_implicants (Some scenario_a) (Some zero_solution) = Returns (0, Some scenario_a_solution)"
    by code_simp
  have g: "?g \<in> set (implicants scenario_a_solution)" by (simp add: scenario_a_solution_def)
  have b: "bit (covered_minterms ?g) 5" by simp
  have h: "tt_invariants scenario_a" by code_simp
  have r: "remove_redundant_implicants (find_groups_with_dont_cares (minterms scenario_a)
          (dont_cares scenario_a) (num_vars scenario_a)) = implicants scenario_a_solution"
    by code_simp
  have "(of_nat 5 :: u8) AND literal_mask ?g = literal_values ?g"
    using implicants_are_faithful_terms[of scenario_a zero_solution scenario_a_solution ?g 5] f g b
    by blast
  then show ?thesis using f g b h r by simp
qed

section \<open>The quad pass\<close>

text \<open>
  Claim C3: on every table that satisfies the invariants the quad pass emits nothing.
  When the pair pass has ended, no minterm that is still uncovered has a higher-indexed
  adjacent cell left in the available pool, so the quad pass returns the state of the
  pair pass unchanged. Every implicant of the engine, and so of a solution that
  \<open>find_prime_implicants\<close> returns, keeps at least \<open>num_vars - 1\<close> literals.
\<close>

theorem quad_pass_never_emits:
  assumes "tt_invariants tt"
  shows "(let st = pair_pass (minterms tt) (num_vars tt) 0
                     (minterms tt, minterms tt OR dont_cares tt, [])
          in quad_pass (minterms tt) (num_vars tt) 0 st = st \<and>
             (\<forall>c1 c2. bit (fst st) c1 \<and> c1 < c2 \<and> are_adjacent c1 c2 (num_vars tt)
                \<longrightarrow> \<not> bit (fst (snd st)) c2)) \<and>
         (\<forall>g\<in>set (find_groups_with_dont_cares (minterms tt) (dont_cares tt) (num_vars tt)).
            num_vars tt - 1 \<le> popcount (ucast (literal_mask g))) \<and>
         (\<forall>s sol. find_prime_implicants (Some tt) (Some s) = Returns (0, Some sol) \<longrightarrow>
            (\<forall>g\<in>set (implicants sol). num_vars tt - 1 \<le> popcount (ucast (literal_mask g))))"
proof -
  let ?gs = "find_groups_with_dont_cares (minterms tt) (dont_cares tt) (num_vars tt)"
  note d = tt_invariants_domain[OF assms]
  obtain rm av gs where
    pp: "pair_pass (minterms tt) (num_vars tt) 0 (minterms tt, minterms tt OR dont_cares tt, [])
           = (rm, av, gs)"
    and post: "pair_post (minterms tt) (num_vars tt) (rm, av, gs)"
    and q: "quad_pass (minterms tt) (num_vars tt) 0 (rm, av, gs) = (rm, av, gs)"
    using find_groups_structure[OF d] by metis
  have adj: "\<forall>c1 c2. bit rm c1 \<and> c1 < c2 \<and> are_adjacent c1 c2 (num_vars tt) \<longrightarrow> \<not> bit av c2"
    using post unfolding pair_post_def by auto
  have first: "(let st = pair_pass (minterms tt) (num_vars tt) 0
                     (minterms tt, minterms tt OR dont_cares tt, [])
          in quad_pass (minterms tt) (num_vars tt) 0 st = st \<and>
             (\<forall>c1 c2. bit (fst st) c1 \<and> c1 < c2 \<and> are_adjacent c1 c2 (num_vars tt)
                \<longrightarrow> \<not> bit (fst (snd st)) c2))"
    unfolding pp Let_def using q adj by simp
  have ok: "\<forall>g\<in>set ?gs. num_vars tt - 1 \<le> popcount (ucast (literal_mask g))"
    using engine_groups_ok[OF d] unfolding group_ok_def by blast
  have api: "\<forall>g\<in>set (implicants sol). num_vars tt - 1 \<le> popcount (ucast (literal_mask g))"
    if f: "find_prime_implicants (Some tt) (Some s) = Returns (0, Some sol)" for s sol
  proof -
    note suc = find_prime_implicants_success[OF f]
    show ?thesis
    proof (cases "minterm_count tt = 0")
      case True
      then show ?thesis using suc by (simp add: zero_solution_def)
    next
      case nz: False
      show ?thesis
      proof (cases "minterm_count tt = 1")
        case True
        then show ?thesis
          using suc shortcut_group_ok[OF assms True] unfolding group_ok_def by simp
      next
        case False
        then have "set (implicants sol) \<subseteq> set ?gs"
          using suc nz remove_redundant_subset by simp
        then show ?thesis using ok by blast
      qed
    qed
  qed
  show ?thesis using first ok api by blast
qed

theorem quad_pass_never_emits_witness:
  "tt_invariants scenario_a \<and>
   quad_pass (minterms scenario_a) (num_vars scenario_a) 0
     (pair_pass (minterms scenario_a) (num_vars scenario_a) 0
        (minterms scenario_a, minterms scenario_a OR dont_cares scenario_a, []))
   = pair_pass (minterms scenario_a) (num_vars scenario_a) 0
        (minterms scenario_a, minterms scenario_a OR dont_cares scenario_a, []) \<and>
   \<lparr>covered_minterms = 34, literal_mask = 3, literal_values = 1, isize = 2\<rparr>
     \<in> set (find_groups_with_dont_cares (minterms scenario_a) (dont_cares scenario_a)
          (num_vars scenario_a)) \<and>
   num_vars scenario_a - 1 \<le> popcount (ucast (3 :: u8))"
proof -
  let ?g = "\<lparr>covered_minterms = 34, literal_mask = 3, literal_values = 1, isize = 2\<rparr>"
  have h: "tt_invariants scenario_a" by code_simp
  have g: "?g \<in> set (find_groups_with_dont_cares (minterms scenario_a) (dont_cares scenario_a)
          (num_vars scenario_a))"
    by code_simp
  note t = quad_pass_never_emits[OF h]
  have q: "quad_pass (minterms scenario_a) (num_vars scenario_a) 0
     (pair_pass (minterms scenario_a) (num_vars scenario_a) 0
        (minterms scenario_a, minterms scenario_a OR dont_cares scenario_a, []))
   = pair_pass (minterms scenario_a) (num_vars scenario_a) 0
        (minterms scenario_a, minterms scenario_a OR dont_cares scenario_a, [])"
    using t unfolding Let_def by blast
  have "num_vars scenario_a - 1 \<le> popcount (ucast (literal_mask ?g))"
    using t g by blast
  then show ?thesis using h q g by simp
qed

section \<open>The capacity of 32 groups\<close>











section \<open>The single sweep of the reducer\<close>

text \<open>
  Claim C4: in the sweep of \<open>remove_redundant_implicants\<close> an implicant \<open>i\<close> that is not
  already removed is marked removed (\<open>size := 0\<close>) exactly when some other implicant \<open>j\<close>
  that is not removed contains its cover and has a larger size, where the judgment is
  the one on the array as it was before the sweep: marks set earlier in the sweep
  neither cause nor prevent a later mark. Nothing else in the array changes, and the
  result is the list of the survivors in their original order.
\<close>

theorem reducer_single_sweep:
  "length (mark_redundant imps 0) = length imps \<and>
   (\<forall>i<length imps. mark_redundant imps 0 ! i =
       (if isize (imps ! i) \<noteq> 0 \<and> dominated imps i
        then (imps ! i)\<lparr>isize := 0\<rparr> else imps ! i)) \<and>
   remove_redundant_implicants imps =
     map (nth imps) (filter (\<lambda>i. isize (imps ! i) \<noteq> 0 \<and> \<not> dominated imps i) [0..<length imps])"
proof -
  have "\<forall>i<length imps. mark_redundant imps 0 ! i =
       (if isize (imps ! i) \<noteq> 0 \<and> dominated imps i
        then (imps ! i)\<lparr>isize := 0\<rparr> else imps ! i)"
    unfolding mark_redundant_eq by (simp add: nth_marked)
  moreover have "length (mark_redundant imps 0) = length imps"
    unfolding mark_redundant_eq by simp
  ultimately show ?thesis using remove_redundant_survivors[of imps] by blast
qed

theorem reducer_single_sweep_witness:
  "(1::nat) < length nested_implicants \<and>
   isize (nested_implicants ! 1) \<noteq> 0 \<and> dominated nested_implicants 1 \<and>
   mark_redundant nested_implicants 0 ! 1 = (nested_implicants ! 1)\<lparr>isize := 0\<rparr> \<and>
   remove_redundant_implicants nested_implicants = [nested_implicants ! 2]"
proof -
  have l: "(1::nat) < length nested_implicants" by (simp add: nested_implicants_def)
  have s: "isize (nested_implicants ! 1) \<noteq> 0" by (simp add: nested_implicants_def)
  have d0: "dominated nested_implicants 0"
    unfolding dominated_def by (rule exI[of _ 2]) (simp add: nested_implicants_def)
  have d1: "dominated nested_implicants 1"
    unfolding dominated_def by (rule exI[of _ 2]) (simp add: nested_implicants_def)
  have d2: "\<not> dominated nested_implicants 2"
  proof
    assume "dominated nested_implicants 2"
    then obtain j where j: "j < length nested_implicants"
      "isize (nested_implicants ! j) > isize (nested_implicants ! 2)"
      unfolding dominated_def by blast
    then have "j = 0 \<or> j = 1 \<or> j = 2" by (auto simp add: nested_implicants_def)
    then show False using j(2) by (auto simp add: nested_implicants_def)
  qed
  have len: "length nested_implicants = 3" by (simp add: nested_implicants_def)
  have s2: "isize (nested_implicants ! 2) \<noteq> 0" by (simp add: nested_implicants_def)
  have upt: "[0..<3] = [0, 1, 2]" by (simp add: upt_rec)
  have f: "filter (\<lambda>i. isize (nested_implicants ! i) \<noteq> 0 \<and> \<not> dominated nested_implicants i)
             [0..<length nested_implicants] = [2]"
    unfolding len upt using d0 d1 d2 s2 by simp
  show ?thesis
    using reducer_single_sweep[of nested_implicants] l s d1 f by simp
qed

section \<open>The renderer and a buffer that is too small\<close>

text \<open>
  Claim C5 says that \<open>generate_sop_expression\<close>, when the next token does not fit,
  fails without partial output. This theorem refutes it: with the two terms \<open>A\<close> and
  \<open>B\<close> and a buffer of 4 bytes the call returns the code -3, and the buffer, empty
  before the call, holds \<open>A\<close>, the part of \<open>A + B\<close> written before the failing check.
\<close>

theorem buffer_too_small_leaves_partial_output:
  "generate_sop_expression (Some two_term_solution) 2 (Some []) 4 = (- 3, Some ''A'') \<and>
   sop_text (implicants two_term_solution) 2 = ''A + B''"
  by code_simp

text \<open>
  Claim C5 as amended: with at most 8 variables and a buffer of at least one byte,
  \<open>generate_sop_expression\<close> on a solution with at least one implicant writes the
  tokens of the expression one after the other, each after its capacity check. Either
  every token passes its check, and the call returns 0 with the whole expression in
  the buffer, which then has room for it and two more bytes; or the call returns -3
  (buffer too small) at the first token \<open>k\<close> that fails its check, and the buffer is
  left holding exactly the tokens before \<open>k\<close>, all of which passed their checks: a
  proper prefix of the expression, not cleared, and not empty when the buffer has at
  least 3 bytes. In that case the expression and two more bytes exceed the buffer. On
  a solution with no implicants the call never fails: it returns 0 with \<open>0\<close> cut to the
  size of the buffer.
\<close>

theorem generate_buffer_too_small:
  "tokens_text (sop_tokens (implicants sol) nv) = sop_text (implicants sol) nv \<and>
   (implicants sol \<noteq> [] \<and> nv \<le> 8 \<and> 0 < output_len \<longrightarrow>
      (generate_sop_expression (Some sol) nv (Some buf) output_len
            = (0, Some (sop_text (implicants sol) nv)) \<and>
          (\<forall>j<length (sop_tokens (implicants sol) nv).
              token_fits (sop_tokens (implicants sol) nv) output_len j) \<and>
          int (length (sop_text (implicants sol) nv)) + 2 \<le> output_len) \<or>
      (\<exists>k<length (sop_tokens (implicants sol) nv).
            generate_sop_expression (Some sol) nv (Some buf) output_len
              = (- 3, Some (tokens_text (take k (sop_tokens (implicants sol) nv)))) \<and>
            (\<forall>j<k. token_fits (sop_tokens (implicants sol) nv) output_len j) \<and>
            \<not> token_fits (sop_tokens (implicants sol) nv) output_len k \<and>
            strict_prefix (tokens_text (take k (sop_tokens (implicants sol) nv)))
              (sop_text (implicants sol) nv) \<and>
            output_len < int (length (sop_text (implicants sol) nv)) + 2 \<and>
            (3 \<le> output_len \<longrightarrow> tokens_text (take k (sop_tokens (implicants sol) nv)) \<noteq> []))) \<and>
   (implicants sol = [] \<and> nv \<le> 8 \<and> 0 < output_len \<longrightarrow>
      generate_sop_expression (Some sol) nv (Some buf) output_len
        = (0, Some (take (nat (output_len - 1)) ''0'')))"
proof -
  let ?ts = "sop_tokens (implicants sol) nv"
  let ?text = "sop_text (implicants sol) nv"
  have tx: "tokens_text ?ts = ?text" by (rule sop_tokens_text)
  have nonempty: "(generate_sop_expression (Some sol) nv (Some buf) output_len = (0, Some ?text) \<and>
          (\<forall>j<length ?ts. token_fits ?ts output_len j) \<and>
          int (length ?text) + 2 \<le> output_len) \<or>
      (\<exists>k<length ?ts.
            generate_sop_expression (Some sol) nv (Some buf) output_len
              = (- 3, Some (tokens_text (take k ?ts))) \<and>
            (\<forall>j<k. token_fits ?ts output_len j) \<and>
            \<not> token_fits ?ts output_len k \<and>
            strict_prefix (tokens_text (take k ?ts)) ?text \<and>
            output_len < int (length ?text) + 2 \<and>
            (3 \<le> output_len \<longrightarrow> tokens_text (take k ?ts) \<noteq> []))"
    if h: "implicants sol \<noteq> []" "nv \<le> 8" "0 < output_len"
  proof -
    have ne: "implicant_count sol \<noteq> 0" using h(1) by (simp add: implicant_count_def)
    have l0: "0 < length (implicants sol)" using h(1) by simp
    have gw: "gen_terms (implicants sol) nv output_len 0 [] = write_tokens output_len ?ts []"
      using gen_terms_tokens[of "implicants sol" nv output_len 0 "[]"]
      by (simp add: sop_tokens_def)
    note fr = sop_tokens_first_room[OF h(1), of nv]
    show ?thesis
    proof (cases "gen_terms (implicants sol) nv output_len 0 []")
      case (Inl e)
      obtain p s where ps: "e = [] @ p" "s \<noteq> []"
          "terms_from nv (0 = (0::nat)) (drop 0 (implicants sol)) = p @ s"
          "output_len < int (length ([]::string) + length (p @ s)) + 2"
        using gen_terms_failure[OF Inl] by blast
      have g: "generate_sop_expression (Some sol) nv (Some buf) output_len = (- 3, Some e)"
        using h(2,3) ne Inl by (simp add: generate_sop_expression_def)
      have sp: "strict_prefix e ?text"
        unfolding sop_text_def using ps by (auto simp add: strict_prefix_def prefix_def)
      have bd: "output_len < int (length ?text) + 2"
        unfolding sop_text_def using ps by simp
      have "write_tokens output_len ?ts [] = Inl e" using Inl gw by simp
      then obtain k where k: "k < length ?ts" "e = [] @ tokens_text (take k ?ts)"
          "\<forall>j<k. int (length ([] @ tokens_text (take j ?ts))) + token_room (?ts ! j) < output_len"
          "\<not> int (length e) + token_room (?ts ! k) < output_len"
        using write_tokens_failure by blast
      have e: "e = tokens_text (take k ?ts)" using k(2) by simp
      have fits: "\<forall>j<k. token_fits ?ts output_len j"
        using k(3) by (simp add: token_fits_def)
      have nofit: "\<not> token_fits ?ts output_len k"
        using k(4) unfolding e by (simp add: token_fits_def)
      have nonempty: "tokens_text (take k ?ts) \<noteq> []" if big: "3 \<le> output_len"
      proof -
        have "k \<noteq> 0"
        proof
          assume "k = 0"
          then have "\<not> (0 + 2 < output_len)" using nofit fr by (simp add: token_fits_def)
          then show False using big by simp
        qed
        then obtain k' where k': "k = Suc k'" by (cases k) auto
        obtain t ts' where tt: "?ts = t # ts'" using fr by (cases ?ts) auto
        show ?thesis unfolding k' tt using token_text_nonempty[of t] by simp
      qed
      show ?thesis using k(1) g[unfolded e] fits nofit sp[unfolded e] bd nonempty by blast
    next
      case (Inr out)
      have s: "out = [] @ terms_from nv (0 = (0::nat)) (drop 0 (implicants sol))"
        "int (length out) + 2 \<le> output_len"
        using gen_terms_success[OF Inr] l0 by blast+
      then have o: "out = ?text" unfolding sop_text_def by simp
      obtain x xs where "implicants sol = x # xs" using h(1) by (cases "implicants sol") auto
      then have "out \<noteq> []"
        using o term_text_nonempty[of x nv] unfolding sop_text_def by auto
      then have g: "generate_sop_expression (Some sol) nv (Some buf) output_len = (0, Some out)"
        using h(2,3) ne Inr by (simp add: generate_sop_expression_def)
      have "write_tokens output_len ?ts [] = Inr out" using Inr gw by simp
      then have "\<forall>j<length ?ts.
          int (length ([] @ tokens_text (take j ?ts))) + token_room (?ts ! j) < output_len"
        using write_tokens_success by blast
      then have fits: "\<forall>j<length ?ts. token_fits ?ts output_len j"
        by (simp add: token_fits_def)
      show ?thesis using g o s(2) fits by simp
    qed
  qed
  have empty: "generate_sop_expression (Some sol) nv (Some buf) output_len
        = (0, Some (take (nat (output_len - 1)) ''0''))"
    if "implicants sol = []" "nv \<le> 8" "0 < output_len"
    using that
    by (simp add: generate_sop_expression_def implicant_count_def strncpy_terminated_def)
  show ?thesis using tx nonempty empty by blast
qed

theorem generate_buffer_too_small_witness:
  "implicants two_term_solution \<noteq> [] \<and> (2::nat) \<le> 8 \<and> (0::int) < 4 \<and>
   sop_tokens (implicants two_term_solution) 2 = [Variable 0, Or_sep, Variable 1] \<and>
   tokens_text [Variable 0, Or_sep, Variable 1] = sop_text (implicants two_term_solution) 2 \<and>
   generate_sop_expression (Some two_term_solution) 2 (Some []) 4 = (- 3, Some ''A'') \<and>
   ''A'' = tokens_text (take 1 [Variable 0, Or_sep, Variable 1]) \<and>
   token_fits [Variable 0, Or_sep, Variable 1] 4 0 \<and>
   \<not> token_fits [Variable 0, Or_sep, Variable 1] 4 1 \<and>
   strict_prefix ''A'' (sop_text (implicants two_term_solution) 2) \<and>
   (4::int) < int (length (sop_text (implicants two_term_solution) 2)) + 2 \<and>
   implicants zero_solution = [] \<and>
   generate_sop_expression (Some zero_solution) 2 (Some []) 4 = (0, Some (take (nat (4 - 1)) ''0''))"
proof -
  have a: "implicants two_term_solution \<noteq> [] \<and> (2::nat) \<le> 8 \<and> (0::int) < 4"
    by (simp add: two_term_solution_def)
  have z: "implicants zero_solution = [] \<and> (2::nat) \<le> 8 \<and> (0::int) < 4"
    by (simp add: zero_solution_def)
  have ts: "sop_tokens (implicants two_term_solution) 2 = [Variable 0, Or_sep, Variable 1]"
    by code_simp
  have g: "generate_sop_expression (Some two_term_solution) 2 (Some []) 4 = (- 3, Some ''A'')"
    by code_simp
  have f0: "token_fits [Variable 0, Or_sep, Variable 1] 4 0" by code_simp
  have f1: "\<not> token_fits [Variable 0, Or_sep, Variable 1] 4 1" by code_simp
  have tk: "''A'' = tokens_text (take 1 [Variable 0, Or_sep, Variable 1])" by code_simp
  note t = generate_buffer_too_small[of two_term_solution 2 4 "[]"]
  have tx: "tokens_text [Variable 0, Or_sep, Variable 1] = sop_text (implicants two_term_solution) 2"
    using conjunct1[OF t] unfolding ts .
  have p: "strict_prefix ''A'' (sop_text (implicants two_term_solution) 2) \<and>
       (4::int) < int (length (sop_text (implicants two_term_solution) 2)) + 2"
    using mp[OF conjunct1[OF conjunct2[OF t]] a] unfolding g by auto
  have e: "generate_sop_expression (Some zero_solution) 2 (Some []) 4
       = (0, Some (take (nat (4 - 1)) ''0''))"
    by (rule mp[OF conjunct2[OF conjunct2[OF generate_buffer_too_small[of zero_solution 2 4 "[]"]]] z])
  show ?thesis using a ts tx g tk f0 f1 p z e by blast
qed

section \<open>The pair pass and the tables with one minterm\<close>

lemma pair_cell_first_fit:
  assumes "\<forall>i. bit rm i \<longrightarrow> bit mt i"
  shows "pair_cell mt nv cell1 (rm, av, gs) = first_fit_pair mt nv cell1 (rm, av, gs)"
proof (cases "bit av cell1 \<and> bit rm cell1")
  case True
  then have m: "bit mt cell1" using assms by blast
  have "pair_cell mt nv cell1 (rm, av, gs) = pair_scan mt nv cell1 (cell1 + 1) (rm, av, gs)"
    using True by (simp add: test_bit_u64')
  then show ?thesis
    unfolding pair_scan_find[OF m] first_fit_pair_def using True
    by (simp add: pair_implicant_def Let_def split: option.splits)
next
  case False
  then show ?thesis unfolding first_fit_pair_def by (auto simp add: test_bit_u64')
qed

lemma pair_pass_fold:
  assumes "pair_inv mt nv k st" "k \<le> 2 ^ nv" "1 \<le> nv" "nv \<le> 6"
  shows "pair_pass mt nv k st = fold (first_fit_pair mt nv) [k..<2 ^ nv] st"
  using assms
proof (induction mt nv k st rule: pair_pass.induct)
  case (1 mt nv cell1 rm av gs)
  from "1.prems"(1) have sub: "\<forall>i. bit rm i \<longrightarrow> bit mt i"
    and cnt1: "length gs + length (filter (bit rm) [0..<cell1]) \<le> (cell1 + 1) div 2"
    and cnt2: "odd cell1 \<and> bit av cell1 \<longrightarrow>
        length gs + length (filter (bit rm) [0..<cell1]) \<le> cell1 div 2"
    unfolding pair_inv_def by auto
  note ff = pair_cell_first_fit[OF sub, of nv cell1 av gs]
  show ?case
  proof (cases "cell1 < 2 ^ nv")
    case False
    then have "pair_pass mt nv cell1 (rm, av, gs) = (rm, av, gs)"
      by (subst pair_pass.simps) (auto simp del: pair_cell.simps)
    then show ?thesis using False by simp
  next
    case lt: True
    then have upt: "[cell1..<2 ^ nv] = cell1 # [cell1 + 1..<2 ^ nv]"
      by (simp add: upt_conv_Cons)
    show ?thesis
    proof (cases "length gs < MAX_GROUPS")
      case True
      have nv8: "nv \<le> 8" using "1.prems"(4) by simp
      have step: "pair_inv mt nv (Suc cell1) (pair_cell mt nv cell1 (rm, av, gs))"
        by (rule pair_inv_step[OF "1.prems"(1) lt "1.prems"(3) nv8])
      have c: "cell1 < 2 ^ nv \<and> length gs < MAX_GROUPS" using lt True by simp
      have "pair_pass mt nv (cell1 + 1) (pair_cell mt nv cell1 (rm, av, gs))
          = fold (first_fit_pair mt nv) [cell1 + 1..<2 ^ nv] (pair_cell mt nv cell1 (rm, av, gs))"
        using "1.IH"[OF c] step lt "1.prems"(3,4) by simp
      moreover have "pair_pass mt nv cell1 (rm, av, gs)
          = pair_pass mt nv (cell1 + 1) (pair_cell mt nv cell1 (rm, av, gs))"
        using c by (subst pair_pass.simps) (simp del: pair_cell.simps)
      ultimately show ?thesis unfolding upt using ff by simp
    next
      case False
      then have full: "32 \<le> length gs" by (simp add: MAX_GROUPS_def)
      have pp: "pair_pass mt nv cell1 (rm, av, gs) = (rm, av, gs)"
        using False by (subst pair_pass.simps) (auto simp del: pair_cell.simps)
      have "(2::nat) ^ nv \<le> 2 ^ 6" using "1.prems"(4) by (rule power_increasing) simp
      then have k64: "cell1 < 64" using lt by simp
      then have "(cell1 + 1) div 2 \<le> 32" by simp
      with cnt1 full have lg: "length gs = 32" and kk: "(cell1 + 1) div 2 = 32" by linarith+
      from kk k64 have k63: "cell1 = 63" by presburger
      have nav: "\<not> bit av cell1"
      proof
        assume "bit av cell1"
        then have "length gs + length (filter (bit rm) [0..<cell1]) \<le> cell1 div 2"
          using cnt2 k63 by simp
        then show False using lg k63 by simp
      qed
      have last: "2 ^ nv = Suc cell1"
      proof -
        have "Suc cell1 \<le> 2 ^ nv" using lt by simp
        moreover have "(2::nat) ^ nv \<le> 64" using \<open>(2::nat) ^ nv \<le> 2 ^ 6\<close> by simp
        ultimately show ?thesis using k63 by simp
      qed
      have "first_fit_pair mt nv cell1 (rm, av, gs) = (rm, av, gs)"
        unfolding first_fit_pair_def using nav by simp
      then show ?thesis unfolding pp last by simp
    qed
  qed
qed

text \<open>
  Claim C8 says that the pair pass handles every usable, uncovered minterm, also on
  tables with exactly one minterm. This theorem refutes that last part: the table with
  two variables, minterm 0 and don't-care 1 satisfies the invariants; the pair pass on
  it would pair cell 0 with cell 1 and drop the literal of variable 0 (mask 2); but
  \<open>find_prime_implicants\<close> takes its shortcut for a single minterm, does not run the
  engine, and returns the singleton with the full mask 3.
\<close>

theorem one_minterm_skips_pair_pass:
  "tt_invariants one_minterm_table \<and>
   find_prime_implicants (Some one_minterm_table) (Some zero_solution)
     = Returns (0, Some (zero_solution\<lparr>implicants := [single_implicant 2 0]\<rparr>)) \<and>
   literal_mask (single_implicant 2 0) = 3 \<and>
   pair_pass (minterms one_minterm_table) 2 0 (1, 3, []) = (0, 0, [pair_implicant 1 2 0 1]) \<and>
   literal_mask (pair_implicant 1 2 0 1) = 2"
  by code_simp

text \<open>
  Claim C8 as amended: the engine runs on the tables with two minterms or more (on a
  table with exactly one minterm \<open>find_prime_implicants\<close> returns the singleton of that
  minterm with every literal, whatever the don't-cares). On every table that satisfies
  the invariants, the pair pass, started as the engine starts it, is the step
  \<open>first_fit_pair\<close> applied to every cell of the table in increasing order: a cell that
  is usable and a still uncovered minterm is paired with the first higher cell that is
  usable and adjacent, the implicant emitted has \<open>covered_minterms\<close> the two cells
  intersected with the minterms, \<open>literal_mask\<close> all variable bits but the differing
  one and \<open>literal_values\<close> the fixed bits of the first cell, and both cells leave the
  pool; with no such partner, and for any other cell, the state is left as it is. The
  list of the engine is the pairs of this pass followed by the singletons of the
  minterms it leaves, and the solution of a table with two minterms or more is the
  reducer applied to that list. A single iteration of the pass is this step in every
  state whose remaining minterms are minterms of the table.
\<close>

theorem pair_pass_first_fit:
  "(tt_invariants tt \<longrightarrow>
      pair_pass (minterms tt) (num_vars tt) 0 (minterms tt, minterms tt OR dont_cares tt, [])
        = fold (first_fit_pair (minterms tt) (num_vars tt)) [0..<2 ^ num_vars tt]
            (minterms tt, minterms tt OR dont_cares tt, []) \<and>
      find_groups_with_dont_cares (minterms tt) (dont_cares tt) (num_vars tt)
        = (case fold (first_fit_pair (minterms tt) (num_vars tt)) [0..<2 ^ num_vars tt]
                  (minterms tt, minterms tt OR dont_cares tt, []) of
             (rm, av, gs) \<Rightarrow>
               gs @ map (single_implicant (num_vars tt)) (filter (bit rm) [0..<2 ^ num_vars tt]))) \<and>
   (find_prime_implicants (Some tt) (Some s) = Returns (0, Some sol) \<and> 2 \<le> minterm_count tt \<longrightarrow>
      implicants sol = remove_redundant_implicants
        (case fold (first_fit_pair (minterms tt) (num_vars tt)) [0..<2 ^ num_vars tt]
                  (minterms tt, minterms tt OR dont_cares tt, []) of
             (rm, av, gs) \<Rightarrow>
               gs @ map (single_implicant (num_vars tt)) (filter (bit rm) [0..<2 ^ num_vars tt]))) \<and>
   (find_prime_implicants (Some tt) (Some s) = Returns (0, Some sol) \<and> minterm_count tt = 1 \<longrightarrow>
      implicants sol = [single_implicant (num_vars tt) (ctz (minterms tt))]) \<and>
   ((\<forall>i. bit rm0 i \<longrightarrow> bit mt i) \<longrightarrow>
      pair_cell mt nv cell1 (rm0, av0, gs0) = first_fit_pair mt nv cell1 (rm0, av0, gs0))"
proof -
  let ?mt = "minterms tt" and ?dc = "dont_cares tt" and ?nv = "num_vars tt"
  let ?init = "(?mt, ?mt OR ?dc, [])"
  let ?fold = "fold (first_fit_pair ?mt ?nv) [0..<2 ^ ?nv] ?init"
  let ?list = "case ?fold of (rm, av, gs) \<Rightarrow>
      gs @ map (single_implicant ?nv) (filter (bit rm) [0..<2 ^ ?nv])"
  have a: "pair_pass ?mt ?nv 0 ?init = ?fold \<and> find_groups_with_dont_cares ?mt ?dc ?nv = ?list"
    if inv: "tt_invariants tt"
  proof -
    note d = tt_invariants_domain[OF inv]
    have pf: "pair_pass ?mt ?nv 0 ?init = ?fold"
      by (rule pair_pass_fold[OF pair_inv_init[OF d(1)] _ d(2,3)]) simp
    obtain rm av gs where
      pp: "pair_pass ?mt ?nv 0 ?init = (rm, av, gs)"
      and eq: "find_groups_with_dont_cares ?mt ?dc ?nv
                 = gs @ map (single_implicant ?nv) (filter (bit rm) [0..<2 ^ ?nv])"
      using find_groups_structure[OF d] by metis
    have "?fold = (rm, av, gs)" using pf pp by simp
    then have "find_groups_with_dont_cares ?mt ?dc ?nv = ?list" using eq by simp
    then show ?thesis using pf by simp
  qed
  have b: "implicants sol = remove_redundant_implicants ?list"
    if h: "find_prime_implicants (Some tt) (Some s) = Returns (0, Some sol)" "2 \<le> minterm_count tt"
  proof -
    note fs = find_prime_implicants_success[OF h(1)]
    have "implicants sol = remove_redundant_implicants
        (find_groups_with_dont_cares ?mt ?dc ?nv)"
      using fs h(2) by auto
    moreover have "find_groups_with_dont_cares ?mt ?dc ?nv = ?list"
      using a fs by blast
    ultimately show ?thesis by simp
  qed
  have c: "implicants sol = [single_implicant ?nv (ctz ?mt)]"
    if "find_prime_implicants (Some tt) (Some s) = Returns (0, Some sol)" "minterm_count tt = 1"
    using find_prime_implicants_success[OF that(1)] that(2) by (simp add: single_implicant_def)
  have d: "pair_cell mt nv cell1 (rm0, av0, gs0) = first_fit_pair mt nv cell1 (rm0, av0, gs0)"
    if "\<forall>i. bit rm0 i \<longrightarrow> bit mt i"
    by (rule pair_cell_first_fit[OF that])
  show ?thesis using a b c d by blast
qed

theorem pair_pass_first_fit_witness:
  "tt_invariants scenario_a \<and>
   pair_pass (minterms scenario_a) (num_vars scenario_a) 0
       (minterms scenario_a, minterms scenario_a OR dont_cares scenario_a, [])
     = (0, 17, [\<lparr>covered_minterms = 34, literal_mask = 3, literal_values = 1, isize = 2\<rparr>,
                \<lparr>covered_minterms = 4, literal_mask = 3, literal_values = 2, isize = 1\<rparr>]) \<and>
   find_groups_with_dont_cares (minterms scenario_a) (dont_cares scenario_a) (num_vars scenario_a)
     = [\<lparr>covered_minterms = 34, literal_mask = 3, literal_values = 1, isize = 2\<rparr>,
        \<lparr>covered_minterms = 4, literal_mask = 3, literal_values = 2, isize = 1\<rparr>] \<and>
   find_prime_implicants (Some scenario_a) (Some zero_solution) = Returns (0, Some scenario_a_solution) \<and>
   2 \<le> minterm_count scenario_a \<and>
   implicants scenario_a_solution = remove_redundant_implicants
     [\<lparr>covered_minterms = 34, literal_mask = 3, literal_values = 1, isize = 2\<rparr>,
      \<lparr>covered_minterms = 4, literal_mask = 3, literal_values = 2, isize = 1\<rparr>] \<and>
   find_prime_implicants (Some one_minterm_table) (Some zero_solution)
     = Returns (0, Some (zero_solution\<lparr>implicants := [single_implicant 2 0]\<rparr>)) \<and>
   minterm_count one_minterm_table = 1 \<and>
   implicants (zero_solution\<lparr>implicants := [single_implicant 2 0]\<rparr>)
     = [single_implicant (num_vars one_minterm_table) (ctz (minterms one_minterm_table))] \<and>
   pair_cell 38 3 1 (38, 119, []) =
     (4, 85, [\<lparr>covered_minterms = 34, literal_mask = 3, literal_values = 1, isize = 2\<rparr>])"
proof -
  have inv: "tt_invariants scenario_a" by code_simp
  have sub: "\<forall>i. bit (38 :: u64) i \<longrightarrow> bit (38 :: u64) i" by simp
  have fa: "find_prime_implicants (Some scenario_a) (Some zero_solution) = Returns (0, Some scenario_a_solution)"
    by code_simp
  have ca: "2 \<le> minterm_count scenario_a" by code_simp
  have fo: "find_prime_implicants (Some one_minterm_table) (Some zero_solution)
     = Returns (0, Some (zero_solution\<lparr>implicants := [single_implicant 2 0]\<rparr>))"
    by code_simp
  have co: "minterm_count one_minterm_table = 1" by code_simp
  have fd: "fold (first_fit_pair (minterms scenario_a) (num_vars scenario_a))
        [0..<2 ^ num_vars scenario_a]
        (minterms scenario_a, minterms scenario_a OR dont_cares scenario_a, [])
      = (0, 17, [\<lparr>covered_minterms = 34, literal_mask = 3, literal_values = 1, isize = 2\<rparr>,
                 \<lparr>covered_minterms = 4, literal_mask = 3, literal_values = 2, isize = 1\<rparr>])"
    by code_simp
  have sg: "(case (0 :: u64, 17 :: u64,
                [\<lparr>covered_minterms = 34, literal_mask = 3, literal_values = 1, isize = 2\<rparr>,
                 \<lparr>covered_minterms = 4, literal_mask = 3, literal_values = 2, isize = 1\<rparr>]) of
             (rm, av, gs) \<Rightarrow>
               gs @ map (single_implicant (num_vars scenario_a))
                      (filter (bit rm) [0..<2 ^ num_vars scenario_a]))
      = [\<lparr>covered_minterms = 34, literal_mask = 3, literal_values = 1, isize = 2\<rparr>,
         \<lparr>covered_minterms = 4, literal_mask = 3, literal_values = 2, isize = 1\<rparr>]"
    by code_simp
  have ff: "first_fit_pair 38 3 1 (38, 119, []) =
     (4, 85, [\<lparr>covered_minterms = 34, literal_mask = 3, literal_values = 1, isize = 2\<rparr>])"
    by code_simp
  note t1 = pair_pass_first_fit[where tt = scenario_a and s = zero_solution
      and sol = scenario_a_solution and ?rm0.0 = 38 and mt = 38 and nv = 3 and ?cell1.0 = 1
      and ?av0.0 = 119 and ?gs0.0 = "[]"]
  note t2 = pair_pass_first_fit[where tt = one_minterm_table and s = zero_solution
      and sol = "zero_solution\<lparr>implicants := [single_implicant 2 0]\<rparr>"
      and ?rm0.0 = 38 and mt = 38 and nv = 3 and ?cell1.0 = 1 and ?av0.0 = 119 and ?gs0.0 = "[]"]
  note e1 = mp[OF conjunct1[OF t1] inv]
  have pp: "pair_pass (minterms scenario_a) (num_vars scenario_a) 0
       (minterms scenario_a, minterms scenario_a OR dont_cares scenario_a, [])
     = (0, 17, [\<lparr>covered_minterms = 34, literal_mask = 3, literal_values = 1, isize = 2\<rparr>,
                \<lparr>covered_minterms = 4, literal_mask = 3, literal_values = 2, isize = 1\<rparr>])"
    using conjunct1[OF e1] unfolding fd .
  have fg: "find_groups_with_dont_cares (minterms scenario_a) (dont_cares scenario_a)
       (num_vars scenario_a)
     = [\<lparr>covered_minterms = 34, literal_mask = 3, literal_values = 1, isize = 2\<rparr>,
        \<lparr>covered_minterms = 4, literal_mask = 3, literal_values = 2, isize = 1\<rparr>]"
    using conjunct2[OF e1] unfolding fd sg .
  have ia: "implicants scenario_a_solution = remove_redundant_implicants
     [\<lparr>covered_minterms = 34, literal_mask = 3, literal_values = 1, isize = 2\<rparr>,
      \<lparr>covered_minterms = 4, literal_mask = 3, literal_values = 2, isize = 1\<rparr>]"
    using mp[OF conjunct1[OF conjunct2[OF t1]] conjI[OF fa ca]] unfolding fd sg .
  note io = mp[OF conjunct1[OF conjunct2[OF conjunct2[OF t2]]] conjI[OF fo co]]
  have pc: "pair_cell 38 3 1 (38, 119, []) =
     (4, 85, [\<lparr>covered_minterms = 34, literal_mask = 3, literal_values = 1, isize = 2\<rparr>])"
    using mp[OF conjunct2[OF conjunct2[OF conjunct2[OF t1]]] sub] unfolding ff .
  show ?thesis
    by (intro conjI) (rule inv pp fg fa ca ia fo co io pc)+
qed

section \<open>Tables without minterms\<close>

text \<open>
  Claim C10 says that a solution with no implicants always renders as \<open>0\<close>. This theorem
  refutes it for a buffer of one byte: Scenario D gives the solution with no implicants,
  and \<open>generate_sop_expression\<close> on it with \<open>output_len = 1\<close> returns the success code 0
  with the empty string in the buffer.
\<close>

theorem zero_solution_in_one_byte:
  "find_prime_implicants (Some scenario_d) (Some zero_solution) = Returns (0, Some zero_solution) \<and>
   implicant_count zero_solution = 0 \<and>
   generate_sop_expression (Some zero_solution) 2 (Some []) 1 = (0, Some [])"
  by code_simp

text \<open>
  Claim C10 as amended: for every table of 2 to 5 variables that satisfies the
  invariants and has no minterm, whatever its don't-cares, \<open>find_prime_implicants\<close>
  returns the solution with no implicants; and \<open>generate_sop_expression\<close> on a solution
  with no implicants, with at most 8 variables, renders exactly \<open>0\<close> when the buffer has
  two bytes or more, and the empty string with the code 0 when it has one byte.
\<close>

theorem no_minterms_render_zero:
  "(tt_invariants tt \<and> num_vars tt \<le> 5 \<and> minterms tt = 0 \<longrightarrow>
      find_prime_implicants (Some tt) (Some s) = Returns (0, Some zero_solution) \<and>
      implicant_count zero_solution = 0) \<and>
   (implicant_count sol = 0 \<and> nv \<le> 8 \<and> 2 \<le> output_len \<longrightarrow>
      generate_sop_expression (Some sol) nv (Some buf) output_len = (0, Some ''0'')) \<and>
   (implicant_count sol = 0 \<and> nv \<le> 8 \<longrightarrow>
      generate_sop_expression (Some sol) nv (Some buf) 1 = (0, Some []))"
proof -
  have a: "find_prime_implicants (Some tt) (Some s) = Returns (0, Some zero_solution) \<and>
      implicant_count zero_solution = 0"
    if h: "tt_invariants tt" "num_vars tt \<le> 5" "minterms tt = 0"
  proof -
    have "popcount (minterms tt) = 0" using h(3) popcount_eq_0_iff by simp
    then have c: "minterm_count tt = 0" using h(1) unfolding tt_invariants_def by simp
    have "validate_truth_table (Some tt) = Returns True"
      using validate_small[OF h(2)] h(1) by simp
    then show ?thesis
      using c by (simp add: find_prime_implicants_def implicant_count_def zero_solution_def)
  qed
  have b: "generate_sop_expression (Some sol) nv (Some buf) output_len = (0, Some ''0'')"
    if "implicant_count sol = 0" "nv \<le> 8" "2 \<le> output_len"
  proof -
    have "nat (output_len - 1) = Suc (nat (output_len - 2))" using that(3) by simp
    then show ?thesis
      using that by (simp add: generate_sop_expression_def strncpy_terminated_def)
  qed
  have c: "generate_sop_expression (Some sol) nv (Some buf) 1 = (0, Some [])"
    if "implicant_count sol = 0" "nv \<le> 8"
    using that by (simp add: generate_sop_expression_def strncpy_terminated_def)
  show ?thesis using a b c by blast
qed

theorem no_minterms_render_zero_witness:
  "tt_invariants scenario_d \<and> num_vars scenario_d \<le> 5 \<and> minterms scenario_d = 0 \<and>
   find_prime_implicants (Some scenario_d) (Some zero_solution) = Returns (0, Some zero_solution) \<and>
   implicant_count zero_solution = 0 \<and> (2::nat) \<le> 8 \<and> (2::int) \<le> 512 \<and>
   generate_sop_expression (Some zero_solution) 2 (Some []) 512 = (0, Some ''0'') \<and>
   generate_sop_expression (Some zero_solution) 2 (Some []) 1 = (0, Some [])"
proof -
  have h: "tt_invariants scenario_d \<and> num_vars scenario_d \<le> 5 \<and> minterms scenario_d = 0"
    by code_simp
  have z: "implicant_count zero_solution = 0 \<and> (2::nat) \<le> 8 \<and> (2::int) \<le> 512" by code_simp
  show ?thesis
    using no_minterms_render_zero[of scenario_d zero_solution zero_solution 2 512 "[]"] h z
    by blast
qed

section \<open>Validation of six-variable tables\<close>

text \<open>For every number of variables other than 6 the outcome is as the specification
  says: success exactly on the tables that satisfy the invariants, the code -2 on the
  others, and the code -1 when a pointer is null.\<close>

lemma find_prime_implicants_not_six:
  assumes "num_vars tt \<noteq> 6"
  shows "(\<exists>sol. find_prime_implicants (Some tt) (Some s) = Returns (0, sol)) \<longleftrightarrow> tt_invariants tt"
    and "\<not> tt_invariants tt \<Longrightarrow> find_prime_implicants (Some tt) (Some s) = Returns (- 2, Some s)"
proof -
  have v: "validate_truth_table (Some tt) = Returns (tt_invariants tt)"
  proof (cases "num_vars tt \<le> 5")
    case True
    then show ?thesis by (rule validate_small)
  next
    case False
    then have "6 < num_vars tt" using assms by simp
    then show ?thesis using validate_large[of tt] by (simp add: tt_invariants_def)
  qed
  show "(\<exists>sol. find_prime_implicants (Some tt) (Some s) = Returns (0, sol)) \<longleftrightarrow> tt_invariants tt"
    using v by (cases "tt_invariants tt") (auto simp add: find_prime_implicants_def Let_def)
  show "find_prime_implicants (Some tt) (Some s) = Returns (- 2, Some s)" if "\<not> tt_invariants tt"
    using v that by (simp add: find_prime_implicants_def)
qed

lemma find_prime_implicants_null:
  "find_prime_implicants None s = Returns (- 1, s)"
  "find_prime_implicants t None = Returns (- 1, None)"
  by (auto simp add: find_prime_implicants_def split: option.splits)

lemma find_prime_implicants_six:
  assumes "num_vars tt = 6"
  shows "find_prime_implicants (Some tt) (Some s) = Undefined_Shift"
  using validate_six[OF assms] by (simp add: find_prime_implicants_def)

text \<open>
  Claim C7 says that \<open>find_prime_implicants\<close> succeeds on every table that satisfies the
  invariants, including every valid table with six variables. The code does not: for
  \<open>num_vars = 6\<close> the range check of \<open>validate_truth_table\<close> evaluates \<open>1ULL << 64\<close>,
  which C leaves undefined, so no result is guaranteed. The table with six variables
  and the minterms 0 and 32 satisfies the invariants, and the call on it has no defined
  outcome.
\<close>

theorem six_var_table_undefined:
  "tt_invariants six_var_table \<and>
   find_prime_implicants (Some six_var_table) (Some zero_solution) = Undefined_Shift"
  by code_simp

section \<open>Scenario B\<close>

text \<open>
  Claim C9 says that for four variables, minterms 0 and 2 and don't-cares 1 and 3 the
  solution is one product term with one literal. This theorem refutes it: the solution
  has two implicants and each keeps three literals.
\<close>

theorem scenario_b_not_single_literal:
  "find_prime_implicants (Some scenario_b) (Some zero_solution) = Returns (0, Some scenario_b_solution) \<and>
   implicant_count scenario_b_solution = 2 \<and>
   map (\<lambda>g. popcount (ucast (literal_mask g))) (implicants scenario_b_solution) = [3, 3]"
  by code_simp

text \<open>
  Claim C9 as amended: on that input each minterm is paired with its adjacent
  don't-care (0 with 1, 2 with 3), which gives two product terms of three literals each,
  and the solution renders as \<open>~B&~C&~D + B&~C&~D\<close>.
\<close>

theorem scenario_b_two_terms:
  "find_groups_with_dont_cares (minterms scenario_b) (dont_cares scenario_b) (num_vars scenario_b)
     = [pair_implicant 5 4 0 1, pair_implicant 5 4 2 3] \<and>
   find_prime_implicants (Some scenario_b) (Some zero_solution) = Returns (0, Some scenario_b_solution) \<and>
   generate_sop_expression (Some scenario_b_solution) 4 (Some []) 512
     = (0, Some ''~B&~C&~D + B&~C&~D'')"
  by code_simp

text \<open>The pattern \<open>1X1X\<close> of the test file is a table of two variables; there the
  solution is the single literal \<open>A\<close>.\<close>

lemma pattern_1X1X_single_literal:
  "find_prime_implicants (Some pattern_1X1X) (Some zero_solution)
     = Returns (0, Some \<lparr>implicants = [pair_implicant 10 2 1 3], literal_count = 1, term_count = 1\<rparr>) \<and>
   generate_sop_expression
     (Some \<lparr>implicants = [pair_implicant 10 2 1 3], literal_count = 1, term_count = 1\<rparr>)
     2 (Some []) 512 = (0, Some ''A'')"
  by code_simp



end
